theory Spec2Isabelle
  imports Main
begin

section \<open>Panics, recovery and the package variables\<close>

text \<open>
  A value of Go's \<open>interface{}\<close> that is not \<open>nil\<close>: a string, a runtime error (such as
  the one raised by closing a closed channel), or any other value. The \<open>nil\<close> interface is
  \<open>None\<close> in \<open>'v go_value option\<close>.
\<close>

datatype 'v go_value = Str string | RuntimeError string | Val 'v

text \<open>How a function call ends: it returns, or it panics with the argument of \<open>panic\<close>.\<close>

datatype 'v exit = Normal | Panic "'v go_value option"

text \<open>
  A handler is a \<open>func(interface{})\<close>: it receives the recovered value, acts on the rest of
  the program (the world \<open>'w\<close>) and may itself panic.
\<close>

type_synonym ('v, 'w) handler = "'v go_value \<Rightarrow> 'w \<Rightarrow> 'v exit \<times> 'w"

text \<open>
  An entry of the slice \<open>PanicHandlers\<close>: the package's own \<open>logPanic\<close>, which reads the
  variable \<open>PrintError\<close> when it is called, or a handler registered by a client.
\<close>

datatype ('v, 'w) registered = LogPanic | Registered "('v, 'w) handler"

text \<open>The three package variables. They are read, never written, by the package.\<close>

record ('v, 'w) pkg =
  ReallyCrash :: bool
  PrintError :: "string \<Rightarrow> 'w \<Rightarrow> 'v exit \<times> 'w"
  PanicHandlers :: "('v, 'w) registered list"

text \<open>
  What the package takes from the Go runtime and the \<open>fmt\<close> package: the text of the stack
  of the calling goroutine, the text of the stacks of all other goroutines, and the two
  renderings \<open>%#v\<close> and \<open>%v\<close> of a value. A byte is a \<open>char\<close>.
\<close>

record 'v runtime =
  stack_current :: string
  stack_others :: string
  fmt_GoSyntax :: "'v go_value \<Rightarrow> string"
  fmt_Default :: "'v go_value \<Rightarrow> string"

text \<open>
  \<open>runtime.Stack(buf, all)\<close> writes the trace of the calling goroutine into \<open>buf\<close>, followed
  by the traces of all other goroutines when \<open>all\<close> is true, truncated to the length of
  \<open>buf\<close>; it returns the number of bytes written and leaves the rest of \<open>buf\<close> as it was.
\<close>

definition runtime_Stack :: "'v runtime \<Rightarrow> string \<Rightarrow> bool \<Rightarrow> nat \<times> string" where
  "runtime_Stack rt buf all =
     (let full = (if all then stack_current rt @ stack_others rt else stack_current rt);
          n = min (length buf) (length full)
      in (n, take n full @ drop n buf))"

text \<open>The constant \<open>size = 64 << 10\<close> of \<open>logPanic\<close>.\<close>

definition size_const :: nat where
  "size_const = push_bit 10 64"

text \<open>\<open>make([]byte, size)\<close>: a slice of \<open>size\<close> zero bytes.\<close>

definition make_bytes :: "nat \<Rightarrow> string" where
  "make_bytes n = replicate n (CHR 0x00)"

text \<open>
  \<open>logPanic\<close>: allocate the buffer, take the stack trace with \<open>all = false\<close>, cut the buffer
  to the bytes written, and print one of two formats to \<open>PrintError\<close>, by whether the
  recovered value is a string.
\<close>

definition logPanic :: "'v runtime \<Rightarrow> ('v, 'w) pkg \<Rightarrow> ('v, 'w) handler" where
  "logPanic rt p r w =
     (let stacktrace0 = make_bytes size_const;
          (n, stacktrace1) = runtime_Stack rt stacktrace0 False;
          stacktrace = take n stacktrace1
      in case r of
           Str s \<Rightarrow> PrintError p (''Observed a panic: '' @ s @ [CHR 0x0A] @ stacktrace) w
         | _ \<Rightarrow> PrintError p (''Observed a panic: '' @ fmt_GoSyntax rt r @ '' ('' @
                   fmt_Default rt r @ '')'' @ [CHR 0x0A] @ stacktrace) w)"

text \<open>Calling an entry of \<open>PanicHandlers\<close>.\<close>

fun call_registered :: "'v runtime \<Rightarrow> ('v, 'w) pkg \<Rightarrow> ('v, 'w) registered \<Rightarrow> ('v, 'w) handler" where
  "call_registered rt p LogPanic = logPanic rt p"
| "call_registered rt p (Registered fn) = fn"

text \<open>
  \<open>for _, fn := range fns { fn(r) }\<close>: the handlers are called in the order of the slice; a
  handler that panics ends the loop, and the panic goes on to the caller.
\<close>

fun range_handlers :: "('v, 'w) handler list \<Rightarrow> 'v go_value \<Rightarrow> 'w \<Rightarrow> 'v exit \<times> 'w" where
  "range_handlers [] r w = (Normal, w)"
| "range_handlers (fn # fns) r w =
     (case fn r w of
        (Normal, w') \<Rightarrow> range_handlers fns r w'
      | (Panic q, w') \<Rightarrow> (Panic q, w'))"

text \<open>
  \<open>recover()\<close> in a deferred function: the argument of the panic in progress, or \<open>nil\<close> when
  there is none. A panic with a \<open>nil\<close> argument therefore also gives \<open>nil\<close> (the language
  as it was when this package was written, before \<open>panic(nil)\<close> was given a runtime error
  of its own). In every case the panic, if any, is over once \<open>recover\<close> has been called.
\<close>

fun recover :: "'v exit \<Rightarrow> 'v go_value option" where
  "recover Normal = None"
| "recover (Panic v) = v"

text \<open>
  \<open>HandleCrash\<close>, called by \<open>defer\<close>. The argument \<open>ex\<close> is how the body of the deferring
  function ended; the result is how the deferring function ends, and the world after it.
\<close>

definition HandleCrash ::
  "'v runtime \<Rightarrow> ('v, 'w) pkg \<Rightarrow> ('v, 'w) handler list \<Rightarrow> 'v exit \<Rightarrow> 'w \<Rightarrow> 'v exit \<times> 'w" where
  "HandleCrash rt p additionalHandlers ex w =
     (case recover ex of
        None \<Rightarrow> (Normal, w)
      | Some r \<Rightarrow>
          (case range_handlers (map (call_registered rt p) (PanicHandlers p)) r w of
             (Panic q, w1) \<Rightarrow> (Panic q, w1)
           | (Normal, w1) \<Rightarrow>
               (case range_handlers additionalHandlers r w1 of
                  (Panic q, w2) \<Rightarrow> (Panic q, w2)
                | (Normal, w2) \<Rightarrow>
                    if ReallyCrash p then (Panic (Some r), w2) else (Normal, w2))))"

text \<open>
  The initial values of the package variables: \<open>ReallyCrash = false\<close>, \<open>PrintError\<close> the
  function that calls \<open>log.Print\<close>, and \<open>PanicHandlers\<close> the one-element slice with
  \<open>logPanic\<close>. The standard logger is a parameter.
\<close>

definition default_pkg :: "(string \<Rightarrow> 'w \<Rightarrow> 'v exit \<times> 'w) \<Rightarrow> ('v, 'w) pkg" where
  "default_pkg log_Print =
     \<lparr>ReallyCrash = False, PrintError = (\<lambda>str. log_Print str), PanicHandlers = [LogPanic]\<rparr>"

text \<open>A handler that returns for every world, when called with \<open>r\<close>.\<close>

definition returns :: "'v go_value \<Rightarrow> ('v, 'w) handler \<Rightarrow> bool" where
  "returns r fn = (\<forall>w. fst (fn r w) = Normal)"

text \<open>Handlers for examples: each appends its name and its argument to a list.\<close>

definition note_call :: "nat \<Rightarrow> (nat, (nat \<times> nat go_value) list) handler" where
  "note_call i r w = (Normal, w @ [(i, r)])"

definition print_to_list :: "string \<Rightarrow> string list \<Rightarrow> nat exit \<times> string list" where
  "print_to_list str w = (Normal, w @ [str])"

text \<open>A runtime for examples: the calling goroutine and one other goroutine.\<close>

definition rt0 :: "nat runtime" where
  "rt0 = \<lparr>stack_current = ''goroutine 7 [running]'', stack_others = ''goroutine 1 [select]'',
          fmt_GoSyntax = (\<lambda>_. ''v''), fmt_Default = (\<lambda>_. ''v'')\<rparr>"

section \<open>Goroutines and the channel \<open>start\<close>\<close>

text \<open>
  A goroutine blocked in \<open>start <- struct{}{}\<close>: the one that \<open>BlockingGo\<close> starts first, or
  an attempt whose deferred \<open>HandleCrash\<close> has recovered \<open>r\<close> and is in its additional
  handler.
\<close>

datatype 'v sender = Seeder | Handler "'v go_value"

text \<open>
  Where the goroutine of \<open>BlockingGo\<close> is: blocked receiving from \<open>start\<close>, about to test for
  cancellation, about to launch an attempt, or returned.
\<close>

datatype loop = LWait | LCheck | LLaunch | LReturned

text \<open>An unrecovered panic in any goroutine ends the whole program.\<close>

datatype 'v process = Alive | Died "'v go_value option"

text \<open>
  The state of one supervision: the loop, the channel \<open>start\<close> (unbuffered: a send blocks
  until it is received) and the goroutines of the attempts. \<open>running\<close> counts the attempts
  launched whose \<open>do\<close> has not ended yet; \<open>resuming\<close> holds the recovered values of the
  attempts whose send has been received and whose \<open>HandleCrash\<close> has not yet gone on;
  \<open>launched\<close> and \<open>calls\<close> count the attempts launched and the calls of \<open>do\<close> that ended.
\<close>

record ('v, 'w) state =
  loop :: loop
  closed :: bool
  senders :: "'v sender list"
  running :: nat
  resuming :: "'v go_value list"
  launched :: nat
  calls :: nat
  world :: 'w
  process :: "'v process"

text \<open>With a stop channel or a context: whether it is closed or cancelled.\<close>

record ('v, 'w) cstate = "('v, 'w) state" +
  stop :: bool

text \<open>
  What the scheduler and the environment choose next. \<open>Cancel\<close> is the environment closing
  the stop channel, cancelling the context or killing the tomb; the others are steps of
  the loop and of the attempts.
\<close>

datatype event =
  Cancel | Loop_Stop | Loop_Receive | Loop_Closed | Loop_Check | Loop_Launch
  | Attempt_Runs | Attempt_Resumes

definition die :: "'v go_value option \<Rightarrow> ('v, 'w, 'z) state_scheme \<Rightarrow> ('v, 'w, 'z) state_scheme" where
  "die q s = (if process s = Alive then s\<lparr>process := Died q\<rparr> else s)"

text \<open>\<open>go func() { ... }()\<close> in the loop: one more attempt.\<close>

definition launch :: "('v, 'w, 'z) state_scheme \<Rightarrow> ('v, 'w, 'z) state_scheme" where
  "launch s = s\<lparr>launched := Suc (launched s), running := Suc (running s)\<rparr>"

text \<open>
  The loop receives from the open channel: possible when a sender is blocked, the oldest
  one is released. An attempt that is released goes on in \<open>HandleCrash\<close> later.
\<close>

definition receive :: "('v, 'w, 'z) state_scheme \<Rightarrow> ('v, 'w, 'z) state_scheme option" where
  "receive s =
     (case senders s of
        [] \<Rightarrow> None
      | x # xs \<Rightarrow>
          if closed s then None
          else Some (s\<lparr>senders := xs,
                 resuming := resuming s @ (case x of Seeder \<Rightarrow> [] | Handler r \<Rightarrow> [r])\<rparr>))"

text \<open>
  \<open>close(start)\<close>: panics when the channel is closed already; a goroutine blocked in a send
  on the channel panics, which nothing recovers.
\<close>

definition close_start :: "('v, 'w, 'z) state_scheme \<Rightarrow> 'v exit \<times> ('v, 'w, 'z) state_scheme" where
  "close_start s =
     (if closed s then (Panic (Some (RuntimeError ''close of closed channel'')), s)
      else if senders s = [] then (Normal, s\<lparr>closed := True\<rparr>)
      else (Normal, die (Some (RuntimeError ''send on closed channel'')) (s\<lparr>closed := True\<rparr>)))"

text \<open>
  The additional handler \<open>func(_ interface{}) { start <- struct{}{} }\<close>: the goroutine
  blocks until the loop receives; on a closed channel the send panics inside
  \<open>HandleCrash\<close>, which nothing recovers.
\<close>

definition send_start :: "'v go_value \<Rightarrow> ('v, 'w, 'z) state_scheme \<Rightarrow> ('v, 'w, 'z) state_scheme" where
  "send_start r s =
     (if closed s then die (Some (RuntimeError ''send on closed channel'')) s
      else s\<lparr>senders := senders s @ [Handler r]\<rparr>)"

text \<open>
  The deferred \<open>HandleCrash(func(_ interface{}) { start <- struct{}{} })\<close> of an attempt, as
  far as it gets without the loop: nothing when \<open>recover\<close> gives \<open>nil\<close>; otherwise the
  registered handlers, then the send. The flag tells whether the function of the attempt
  has returned.
\<close>

definition deferred_until_send ::
  "'v runtime \<Rightarrow> ('v, 'w) pkg \<Rightarrow> 'v exit \<Rightarrow> ('v, 'w, 'z) state_scheme \<Rightarrow> bool \<times> ('v, 'w, 'z) state_scheme" where
  "deferred_until_send rt p ex s =
     (case recover ex of
        None \<Rightarrow> (True, s)
      | Some r \<Rightarrow>
          (case range_handlers (map (call_registered rt p) (PanicHandlers p)) r (world s) of
             (Panic q, w) \<Rightarrow> (False, die q (s\<lparr>world := w\<rparr>))
           | (Normal, w) \<Rightarrow> (False, send_start r (s\<lparr>world := w\<rparr>))))"

text \<open>
  The rest of \<open>HandleCrash\<close> once the send has been received: the loop over the additional
  handlers is over, and \<open>ReallyCrash\<close> decides between \<open>panic(r)\<close> and returning. The flag
  tells whether the function of the attempt has returned.
\<close>

definition deferred_after_send ::
  "('v, 'w) pkg \<Rightarrow> ('v, 'w, 'z) state_scheme \<Rightarrow> (bool \<times> ('v, 'w, 'z) state_scheme) option" where
  "deferred_after_send p s =
     (case resuming s of
        [] \<Rightarrow> None
      | r # rs \<Rightarrow>
          Some (if ReallyCrash p then (False, die (Some r) (s\<lparr>resuming := rs\<rparr>))
                else (True, s\<lparr>resuming := rs\<rparr>)))"

text \<open>
  The unit of work. Its result may depend on how many times it has been called (the
  closure can count), so the number of the call is an argument; \<open>do n w\<close> is the \<open>n\<close>-th
  call, made in world \<open>w\<close>.
\<close>

type_synonym ('v, 'w) work = "nat \<Rightarrow> 'w \<Rightarrow> 'v exit \<times> 'w"

text \<open>
  The goroutine of an attempt, from its start to its end or to its blocking send:
  \<open>defer HandleCrash(...); do(); close(start)\<close>.
\<close>

definition attempt_runs ::
  "'v runtime \<Rightarrow> ('v, 'w) pkg \<Rightarrow> ('v, 'w) work \<Rightarrow> ('v, 'w, 'z) state_scheme \<Rightarrow> ('v, 'w, 'z) state_scheme option" where
  "attempt_runs rt p do s =
     (if running s = 0 then None
      else
        let n = Suc (calls s);
            (ex, w) = do n (world s);
            s1 = s\<lparr>running := running s - 1, calls := n, world := w\<rparr>;
            (ex', s2) = (case ex of Normal \<Rightarrow> close_start s1 | Panic v \<Rightarrow> (Panic v, s1))
        in Some (snd (deferred_until_send rt p ex' s2)))"

section \<open>\<open>BlockingGo\<close> with a stop channel\<close>

text \<open>
  The loop \<open>for { select { case <-stopChan: return; case _, ok := <-start: ... } }\<close>. A
  \<open>select\<close> with several cases ready takes any of them, so with the stop channel closed
  and a sender blocked both \<open>Loop_Stop\<close> and \<open>Loop_Receive\<close> are possible.
\<close>

definition BlockingGo_chan_step ::
  "'v runtime \<Rightarrow> ('v, 'w) pkg \<Rightarrow> ('v, 'w) work \<Rightarrow> event \<Rightarrow> ('v, 'w) cstate \<Rightarrow> ('v, 'w) cstate option" where
  "BlockingGo_chan_step rt p do e s =
     (if process s \<noteq> Alive then None
      else case e of
        Cancel \<Rightarrow> if stop s then None else Some (s\<lparr>stop := True\<rparr>)
      | Loop_Stop \<Rightarrow> if loop s = LWait \<and> stop s then Some (s\<lparr>loop := LReturned\<rparr>) else None
      | Loop_Receive \<Rightarrow> if loop s = LWait then map_option launch (receive s) else None
      | Loop_Closed \<Rightarrow> if loop s = LWait \<and> closed s then Some (s\<lparr>loop := LReturned\<rparr>) else None
      | Loop_Check \<Rightarrow> None
      | Loop_Launch \<Rightarrow> None
      | Attempt_Runs \<Rightarrow> attempt_runs rt p do s
      | Attempt_Resumes \<Rightarrow> map_option snd (deferred_after_send p s))"

section \<open>\<open>BlockingGo\<close> with a context\<close>

text \<open>
  The loop \<open>for _ = range start { if err := ctx.Err(); err != nil { return }; go ... }\<close>:
  the loop waits for the channel alone, tests the context after each token and then
  launches the attempt; the context can be cancelled between the test and the launch. The
  unit of work receives the context, so its result may depend on whether it is cancelled.
\<close>

definition BlockingGo_ctx_step ::
  "'v runtime \<Rightarrow> ('v, 'w) pkg \<Rightarrow> (bool \<Rightarrow> ('v, 'w) work) \<Rightarrow> event \<Rightarrow> ('v, 'w) cstate \<Rightarrow> ('v, 'w) cstate option" where
  "BlockingGo_ctx_step rt p do e s =
     (if process s \<noteq> Alive then None
      else case e of
        Cancel \<Rightarrow> if stop s then None else Some (s\<lparr>stop := True\<rparr>)
      | Loop_Stop \<Rightarrow> None
      | Loop_Receive \<Rightarrow>
          if loop s = LWait then map_option (\<lambda>s. s\<lparr>loop := LCheck\<rparr>) (receive s) else None
      | Loop_Closed \<Rightarrow> if loop s = LWait \<and> closed s then Some (s\<lparr>loop := LReturned\<rparr>) else None
      | Loop_Check \<Rightarrow>
          if loop s = LCheck
          then Some (if stop s then s\<lparr>loop := LReturned\<rparr> else s\<lparr>loop := LLaunch\<rparr>)
          else None
      | Loop_Launch \<Rightarrow> if loop s = LLaunch then Some (launch (s\<lparr>loop := LWait\<rparr>)) else None
      | Attempt_Runs \<Rightarrow> attempt_runs rt p (do (stop s)) s
      | Attempt_Resumes \<Rightarrow> map_option snd (deferred_after_send p s))"

text \<open>
  The state in which \<open>BlockingGo\<close> enters its loop: the channel made, the first sender
  started, nothing launched.
\<close>

definition BlockingGo_init :: "bool \<Rightarrow> 'w \<Rightarrow> ('v, 'w) cstate" where
  "BlockingGo_init c w =
     \<lparr>loop = LWait, closed = False, senders = [Seeder], running = 0, resuming = [],
      launched = 0, calls = 0, world = w, process = Alive, stop = c\<rparr>"

text \<open>A schedule is a list of events; it runs as long as each event is possible.\<close>

fun run :: "(event \<Rightarrow> 's \<Rightarrow> 's option) \<Rightarrow> event list \<Rightarrow> 's \<Rightarrow> 's option" where
  "run step [] s = Some s"
| "run step (e # es) s = (case step e s of None \<Rightarrow> None | Some s' \<Rightarrow> run step es s')"


text \<open>Every registered handler returns, whatever it is called with.\<close>

definition handlers_return :: "'v runtime \<Rightarrow> ('v, 'w) pkg \<Rightarrow> bool" where
  "handlers_return rt p =
     (\<forall>r. \<forall>fn \<in> set (map (call_registered rt p) (PanicHandlers p)). returns r fn)"

text \<open>How the \<open>n\<close>-th call of the unit of work ends, in whatever world it is made.\<close>

definition faults_at :: "('v, 'w) work \<Rightarrow> nat \<Rightarrow> bool" where
  "faults_at do n = (\<forall>w. \<exists>r. fst (do n w) = Panic (Some r))"

definition completes_at :: "('v, 'w) work \<Rightarrow> nat \<Rightarrow> bool" where
  "completes_at do n = (\<forall>w. fst (do n w) = Normal)"

definition nil_panics_at :: "('v, 'w) work \<Rightarrow> nat \<Rightarrow> bool" where
  "nil_panics_at do n = (\<forall>w. fst (do n w) = Panic None)"

text \<open>The attempts blocked in their send.\<close>

fun is_handler :: "'v sender \<Rightarrow> bool" where
  "is_handler Seeder = False"
| "is_handler (Handler r) = True"

text \<open>Some step other than \<open>Cancel\<close> is possible.\<close>

definition can_step :: "(event \<Rightarrow> 's \<Rightarrow> 's option) \<Rightarrow> 's \<Rightarrow> bool" where
  "can_step step s =
     (\<exists>e \<in> {Loop_Stop, Loop_Receive, Loop_Closed, Loop_Check, Loop_Launch, Attempt_Runs,
             Attempt_Resumes}. step e s \<noteq> None)"

text \<open>
  The steps taken so far, read off the state, in a run without cancellation in which every
  attempt faults: with a stop channel each attempt is launched with the receipt of its
  token, runs and resumes; with a context or a tomb the receipt, the test and the launch
  are three steps.
\<close>

definition ticks_chan :: "('v, 'w, 'z) state_scheme \<Rightarrow> int" where
  "ticks_chan s =
     int (launched s) + 2 * int (calls s)
       - int (length (filter is_handler (senders s))) - int (length (resuming s))"

definition ticks_ctx :: "('v, 'w, 'z) state_scheme \<Rightarrow> int" where
  "ticks_ctx s =
     3 * int (launched s) + (if loop s = LCheck then 1 else if loop s = LLaunch then 2 else 0)
       + 2 * int (calls s)
       - int (length (filter is_handler (senders s))) - int (length (resuming s))"

text \<open>
  What holds throughout a run without cancellation in which every attempt faults: the loop
  is in its cycle, the channel is open, and there is exactly one token: a blocked sender,
  a token just received, or an attempt that has not faulted yet.
\<close>

definition inv_faulting :: "('v, 'w) cstate \<Rightarrow> bool" where
  "inv_faulting s =
     (loop s \<noteq> LReturned \<and> process s = Alive \<and> \<not> closed s \<and> \<not> stop s \<and>
      calls s + running s = launched s \<and>
      length (senders s) + running s + (if loop s = LCheck \<or> loop s = LLaunch then 1 else 0) = 1)"

text \<open>
  The tokens of a supervision: the goroutines blocked in a send, the attempts that have
  not ended their call, and a token received but not yet acted on.
\<close>

definition tokens :: "('v, 'w, 'z) state_scheme \<Rightarrow> nat" where
  "tokens s =
     length (senders s) + running s + (if loop s = LCheck \<or> loop s = LLaunch then 1 else 0)"

text \<open>The calls before the \<open>K\<close>-th fault (calls are numbered from one).\<close>

definition faults_before :: "('v, 'w) work \<Rightarrow> nat \<Rightarrow> bool" where
  "faults_before do K = (\<forall>n. 0 < n \<and> n < K \<longrightarrow> faults_at do n)"

text \<open>
  What holds throughout every run, cancelled or not, when the calls before the \<open>K\<close>-th
  fault and the \<open>K\<close>-th either returns (\<open>ok\<close>) or panics with \<open>nil\<close>: there is at most one
  token, none once the \<open>K\<close>-th call has ended; the channel is closed exactly when the
  \<open>K\<close>-th call has returned; and the loop has returned only after cancellation (the
  argument \<open>cancelled\<close>) or after the channel was closed.
\<close>

definition inv_until :: "nat \<Rightarrow> bool \<Rightarrow> bool \<Rightarrow> ('v, 'w, 'z) state_scheme \<Rightarrow> bool" where
  "inv_until K ok cancelled s =
     (process s = Alive \<and> calls s + running s = launched s \<and> launched s \<le> K \<and>
      tokens s \<le> 1 \<and>
      (tokens s = 1 \<and> running s = 0 \<longrightarrow> calls s < K) \<and>
      (tokens s = 0 \<longrightarrow> calls s = K \<or> loop s = LReturned) \<and>
      (closed s \<longleftrightarrow> ok \<and> calls s = K) \<and>
      (loop s = LReturned \<longrightarrow> cancelled \<or> closed s))"

text \<open>
  The steps taken so far in a run without cancellation of such a unit of work: the last
  call is not followed by a resumption, and the return of the loop is a step.
\<close>

definition ticks_chan_until :: "nat \<Rightarrow> ('v, 'w, 'z) state_scheme \<Rightarrow> int" where
  "ticks_chan_until K s =
     ticks_chan s - (if calls s = K then 1 else 0) + (if loop s = LReturned then 1 else 0)"

definition ticks_ctx_until :: "nat \<Rightarrow> ('v, 'w, 'z) state_scheme \<Rightarrow> int" where
  "ticks_ctx_until K s =
     ticks_ctx s - (if calls s = K then 1 else 0) + (if loop s = LReturned then 1 else 0)"

section \<open>The tomb\<close>

text \<open>
  An \<open>error\<close> that is not \<open>nil\<close>: one of the two values the tomb compares with, or any
  other error. The \<open>nil\<close> error is \<open>None\<close> in \<open>'e error option\<close>.
\<close>

datatype 'e error = ErrStillAlive | ErrDying | Err 'e

text \<open>
  The \<open>mockTomb\<close> of the tests, the one implementation of the interface \<open>Tomb\<close> in the
  repository, after \<open>init\<close>: the number of tracked goroutines alive, whether the channels
  \<open>dying\<close> and \<open>dead\<close> are closed, and the reason. \<open>results\<close> records what the tracked
  functions returned, oldest first. The tomb has no children.
\<close>

record 'e tomb =
  alive :: int
  dying :: bool
  dead :: bool
  reason :: "'e error option"
  results :: "'e error option list"

definition tomb_init :: "'e tomb" where
  "tomb_init = \<lparr>alive = 0, dying = False, dead = False, reason = Some ErrStillAlive, results = []\<rparr>"

text \<open>
  What the tomb panics with: a string of its own, or the runtime error of closing a
  closed channel.
\<close>

datatype fault = PanicStr string | PanicRuntime string

fun raised :: "fault \<Rightarrow> 'v go_value" where
  "raised (PanicStr msg) = Str msg"
| "raised (PanicRuntime msg) = RuntimeError msg"

text \<open>
  \<open>kill\<close>: only the first reason other than \<open>nil\<close> is kept. The result tells whether the
  call panicked.
\<close>

definition kill :: "'e error option \<Rightarrow> 'e tomb \<Rightarrow> fault option \<times> 'e tomb" where
  "kill why t =
     (if why = Some ErrStillAlive then (Some (PanicStr ''tomb: Kill with ErrStillAlive''), t)
      else if why = Some ErrDying then
        (if reason t = Some ErrStillAlive
         then (Some (PanicStr ''tomb: Kill with ErrDying while still alive''), t)
         else (None, t))
      else if reason t = Some ErrStillAlive then
        (if dying t then (Some (PanicRuntime ''close of closed channel''), t\<lparr>reason := why\<rparr>)
         else (None, t\<lparr>reason := why, dying := True\<rparr>))
      else if reason t = None then (None, t\<lparr>reason := why\<rparr>)
      else (None, t))"

text \<open>\<open>Go\<close>, up to the start of the goroutine that runs \<open>f\<close>.\<close>

definition tomb_Go :: "'e tomb \<Rightarrow> fault option \<times> 'e tomb" where
  "tomb_Go t =
     (if dead t then (Some (PanicStr ''tomb.Go called after all goroutines terminated''), t)
      else (None, t\<lparr>alive := alive t + 1\<rparr>))"

text \<open>\<open>run\<close>, once \<open>f\<close> has returned \<open>err\<close>.\<close>

definition tomb_run :: "'e error option \<Rightarrow> 'e tomb \<Rightarrow> fault option \<times> 'e tomb" where
  "tomb_run err t =
     (let t1 = t\<lparr>alive := alive t - 1, results := results t @ [err]\<rparr> in
      if alive t1 = 0 \<or> err \<noteq> None then
        (case kill err t1 of
           (Some q, t2) \<Rightarrow> (Some q, t2)
         | (None, t2) \<Rightarrow>
             if alive t2 = 0 then
               (if dead t2 then (Some (PanicRuntime ''close of closed channel''), t2)
                else (None, t2\<lparr>dead := True\<rparr>))
             else (None, t2))
      else (None, t1))"

section \<open>\<open>BlockingGoTomb\<close>\<close>

record ('v, 'w, 'e) tstate = "('v, 'w) state" +
  tomb :: "'e tomb"

text \<open>How a call of a unit of work that returns an \<open>error\<close> ends.\<close>

datatype ('v, 'e) result = Returns "'e error option" | Panics "'v go_value option"

type_synonym ('v, 'w, 'e) twork = "nat \<Rightarrow> 'w \<Rightarrow> ('v, 'e) result \<times> 'w"

text \<open>
  A call of the tomb in a goroutine of its own or in the goroutine of the loop: a panic
  of the tomb is not recovered by anyone.
\<close>

definition in_tomb ::
  "('e tomb \<Rightarrow> fault option \<times> 'e tomb) \<Rightarrow> ('v, 'w, 'e) tstate \<Rightarrow> ('v, 'w, 'e) tstate" where
  "in_tomb f s =
     (case f (tomb s) of
        (Some q, t) \<Rightarrow> die (Some (raised q)) (s\<lparr>tomb := t\<rparr>)
      | (None, t) \<Rightarrow> s\<lparr>tomb := t\<rparr>)"

text \<open>
  The function given to \<open>ts.Go\<close>, from its start to its return or to its blocking send:
  \<open>defer HandleCrash(...); err := do(); close(start); return err\<close>. When it returns after
  a panic was recovered, it returns the zero value of its result, \<open>nil\<close>. The tomb's \<open>run\<close>
  goes on with what it returned.
\<close>

definition attempt_runs_tomb ::
  "'v runtime \<Rightarrow> ('v, 'w) pkg \<Rightarrow> ('v, 'w, 'e) twork \<Rightarrow> ('v, 'w, 'e) tstate \<Rightarrow> ('v, 'w, 'e) tstate option" where
  "attempt_runs_tomb rt p do s =
     (if running s = 0 then None
      else
        let n = Suc (calls s);
            (res, w) = do n (world s);
            s1 = s\<lparr>running := running s - 1, calls := n, world := w\<rparr>;
            (ex', s2) = (case res of Returns err \<Rightarrow> close_start s1 | Panics v \<Rightarrow> (Panic v, s1));
            (ret, s3) = deferred_until_send rt p ex' s2
        in Some (if ret
                 then in_tomb (tomb_run (case (res, ex') of (Returns err, Normal) \<Rightarrow> err | _ \<Rightarrow> None)) s3
                 else s3))"

text \<open>
  The function given to \<open>ts.Go\<close> after its send was received: when \<open>HandleCrash\<close> returns,
  the panic is recovered and the function returns \<open>nil\<close>.
\<close>

definition attempt_resumes_tomb ::
  "('v, 'w) pkg \<Rightarrow> ('v, 'w, 'e) tstate \<Rightarrow> ('v, 'w, 'e) tstate option" where
  "attempt_resumes_tomb p s =
     (case deferred_after_send p s of
        None \<Rightarrow> None
      | Some (ret, s1) \<Rightarrow> Some (if ret then in_tomb (tomb_run None) s1 else s1))"

text \<open>
  The loop \<open>for _ = range start { select { case <-ts.Dying(): return; default: }; ts.Go(...) }\<close>.
  \<open>Cancel\<close> is a call \<open>Kill(why)\<close> by the environment.
\<close>

definition BlockingGoTomb_step ::
  "'v runtime \<Rightarrow> ('v, 'w) pkg \<Rightarrow> ('v, 'w, 'e) twork \<Rightarrow> 'e error option \<Rightarrow> event \<Rightarrow>
     ('v, 'w, 'e) tstate \<Rightarrow> ('v, 'w, 'e) tstate option" where
  "BlockingGoTomb_step rt p do why e s =
     (if process s \<noteq> Alive then None
      else case e of
        Cancel \<Rightarrow> Some (in_tomb (kill why) s)
      | Loop_Stop \<Rightarrow> None
      | Loop_Receive \<Rightarrow>
          if loop s = LWait then map_option (\<lambda>s. s\<lparr>loop := LCheck\<rparr>) (receive s) else None
      | Loop_Closed \<Rightarrow> if loop s = LWait \<and> closed s then Some (s\<lparr>loop := LReturned\<rparr>) else None
      | Loop_Check \<Rightarrow>
          if loop s = LCheck
          then Some (if dying (tomb s) then s\<lparr>loop := LReturned\<rparr> else s\<lparr>loop := LLaunch\<rparr>)
          else None
      | Loop_Launch \<Rightarrow>
          if loop s = LLaunch
          then Some (case tomb_Go (tomb s) of
                       (Some q, t) \<Rightarrow> die (Some (raised q)) (s\<lparr>tomb := t\<rparr>)
                     | (None, t) \<Rightarrow> launch (s\<lparr>tomb := t, loop := LWait\<rparr>))
          else None
      | Attempt_Runs \<Rightarrow> attempt_runs_tomb rt p do s
      | Attempt_Resumes \<Rightarrow> attempt_resumes_tomb p s)"

definition BlockingGoTomb_init :: "'e tomb \<Rightarrow> 'w \<Rightarrow> ('v, 'w, 'e) tstate" where
  "BlockingGoTomb_init t w =
     \<lparr>loop = LWait, closed = False, senders = [Seeder], running = 0, resuming = [],
      launched = 0, calls = 0, world = w, process = Alive, tomb = t\<rparr>"











section \<open>\<open>Go\<close> and \<open>GoTomb\<close>\<close>

text \<open>
  A call whose body is a \<open>go\<close> statement: the caller has the call back at once, and the
  function of the statement runs in a goroutine of its own.
\<close>

record 's detached =
  caller_returned :: bool
  supervision :: 's

definition go_stmt :: "'s \<Rightarrow> 's detached" where
  "go_stmt s0 = \<lparr>caller_returned = True, supervision = s0\<rparr>"

definition detached_step :: "(event \<Rightarrow> 's \<Rightarrow> 's option) \<Rightarrow> event \<Rightarrow> 's detached \<Rightarrow> 's detached option" where
  "detached_step step e g = map_option (\<lambda>s. g\<lparr>supervision := s\<rparr>) (step e (supervision g))"

text \<open>\<open>Go\<close> is \<open>go BlockingGo(...)\<close> and \<open>GoTomb\<close> is \<open>go BlockingGoTomb(ts, do)\<close>.\<close>

definition Go_init :: "bool \<Rightarrow> 'w \<Rightarrow> ('v, 'w) cstate detached" where
  "Go_init c w = go_stmt (BlockingGo_init c w)"

definition GoTomb_init :: "'e tomb \<Rightarrow> 'w \<Rightarrow> ('v, 'w, 'e) tstate detached" where
  "GoTomb_init t w = go_stmt (BlockingGoTomb_init t w)"

text \<open>The caller of the blocking function has the call back when the loop has returned.\<close>

definition blocking_returned :: "('v, 'w, 'z) state_scheme \<Rightarrow> bool" where
  "blocking_returned s = (loop s = LReturned)"

text \<open>A unit of work and package variables for examples.\<close>

definition always_boom :: "(nat, nat) work" where
  "always_boom n w = (Panic (Some (Str ''panicked'')), Suc w)"

definition pkg0 :: "(nat, nat) pkg" where
  "pkg0 = \<lparr>ReallyCrash = False, PrintError = (\<lambda>_ w. (Normal, w)), PanicHandlers = [LogPanic]\<rparr>"


definition boom_then_nil :: "(nat, nat) work" where
  "boom_then_nil n w = (if n < 2 then Panic (Some (Str ''panicked'')) else Panic None, Suc w)"


definition always_boom_tomb :: "(nat, nat, string) twork" where
  "always_boom_tomb n w = (Panics (Some (Str ''panicked'')), Suc w)"

text \<open>Package variables with one registered handler, which adds ten to the world.\<close>

definition pkg_count :: "(nat, nat) pkg" where
  "pkg_count =
     \<lparr>ReallyCrash = False, PrintError = (\<lambda>_ w. (Normal, w)),
      PanicHandlers = [Registered (\<lambda>r w. (Normal, w + 10))]\<rparr>"

section \<open>Fault containment\<close>

lemma range_handlers_returns:
  "\<forall>fn \<in> set fns. returns r fn \<Longrightarrow>
   range_handlers fns r w = (Normal, foldl (\<lambda>w fn. snd (fn r w)) w fns)"
proof (induction fns arbitrary: w)
  case Nil
  then show ?case by simp
next
  case (Cons fn fns)
  from Cons.prems have "fst (fn r w) = Normal"
    by (simp add: returns_def)
  then obtain w' where fn: "fn r w = (Normal, w')"
    by (cases "fn r w") simp
  from Cons.prems have "\<forall>g \<in> set fns. returns r g"
    by simp
  with Cons.IH [of w'] fn show ?case
    by simp
qed

lemma range_handlers_append:
  "range_handlers (fns @ gns) r w =
     (case range_handlers fns r w of
        (Normal, w') \<Rightarrow> range_handlers gns r w'
      | (Panic q, w') \<Rightarrow> (Panic q, w'))"
  by (induction fns arbitrary: w) (auto split: prod.splits exit.splits)

lemma size_const_eq: "size_const = 65536"
  by (simp add: size_const_def)

lemma take_size_short: "length xs \<le> 65536 \<Longrightarrow> take size_const xs = xs"
  by (simp add: size_const_eq)

lemma logPanic_trace:
  "logPanic rt p r w =
     PrintError p (''Observed a panic: '' @
        (case r of Str s \<Rightarrow> s | _ \<Rightarrow> fmt_GoSyntax rt r @ '' ('' @ fmt_Default rt r @ '')'') @
        [CHR 0x0A] @ take size_const (stack_current rt)) w"
  by (cases r) (simp_all add: logPanic_def runtime_Stack_def make_bytes_def Let_def min_def)

lemma returns_note_call: "returns r (note_call i)"
  by (simp add: returns_def note_call_def)

text \<open>
  Claim C5. When the deferring function panicked with a value \<open>r\<close> that is not \<open>nil\<close>, and
  every handler returns, \<open>HandleCrash\<close> leaves the world that results from calling, one
  after the other and each with \<open>r\<close>, the handlers of \<open>PanicHandlers\<close> in the order of the
  slice and then the additional handlers in the order of the arguments. When the deferring
  function returned, no handler is called: the world is as it was.
\<close>

theorem HandleCrash_calls_handlers_in_order:
  "((\<forall>fn \<in> set (map (call_registered rt p) (PanicHandlers p) @ additionalHandlers). returns r fn) \<longrightarrow>
      snd (HandleCrash rt p additionalHandlers (Panic (Some r)) w) =
        foldl (\<lambda>w fn. snd (fn r w)) w
          (map (call_registered rt p) (PanicHandlers p) @ additionalHandlers)) \<and>
   HandleCrash rt p additionalHandlers Normal w = (Normal, w)"
proof (intro conjI impI)
  assume ret: "\<forall>fn \<in> set (map (call_registered rt p) (PanicHandlers p) @ additionalHandlers). returns r fn"
  let ?reg = "map (call_registered rt p) (PanicHandlers p)"
  from ret have a: "\<forall>fn \<in> set ?reg. returns r fn" and b: "\<forall>fn \<in> set additionalHandlers. returns r fn"
    by auto
  show "snd (HandleCrash rt p additionalHandlers (Panic (Some r)) w) =
        foldl (\<lambda>w fn. snd (fn r w)) w (?reg @ additionalHandlers)"
    by (simp add: HandleCrash_def range_handlers_returns [OF a] range_handlers_returns [OF b])
next
  show "HandleCrash rt p additionalHandlers Normal w = (Normal, w)"
    by (simp add: HandleCrash_def)
qed

text \<open>
  The theorem at two registered and two additional handlers, each of which writes its
  number and its argument to a list: the list shows the four calls in order.
\<close>

theorem HandleCrash_calls_handlers_in_order_witness:
  "list_all (returns (Str ''boom''))
     (map (call_registered rt0
        \<lparr>ReallyCrash = False, PrintError = (\<lambda>_ w. (Normal, w)),
          PanicHandlers = [Registered (note_call 0), Registered (note_call 1)]\<rparr>)
        [Registered (note_call 0), Registered (note_call 1)] @ [note_call 2, note_call 3]) \<and>
   snd (HandleCrash rt0
        \<lparr>ReallyCrash = False, PrintError = (\<lambda>_ w. (Normal, w)),
          PanicHandlers = [Registered (note_call 0), Registered (note_call 1)]\<rparr>
        [note_call 2, note_call 3] (Panic (Some (Str ''boom''))) []) =
     [(0, Str ''boom''), (1, Str ''boom''), (2, Str ''boom''), (3, Str ''boom'')]"
  using HandleCrash_calls_handlers_in_order [of rt0
        "\<lparr>ReallyCrash = False, PrintError = (\<lambda>_ w. (Normal, w)),
          PanicHandlers = [Registered (note_call 0), Registered (note_call 1)]\<rparr>"
        "[note_call 2, note_call 3]" "Str ''boom''" "[]"]
  by (simp add: returns_note_call) (simp add: note_call_def)

text \<open>
  Claim C6. When every handler returns, \<open>HandleCrash\<close> ends with a panic exactly when
  \<open>ReallyCrash\<close> is set, the panic then carries the recovered value itself, and the world
  is the one after all registered and additional handlers. \<open>ReallyCrash\<close> is initially
  false; with the initial package variables, a logger that returns and additional handlers
  that return, the deferring function returns however its body ended.
\<close>

theorem HandleCrash_reraises_iff_ReallyCrash:
  "((\<forall>fn \<in> set (map (call_registered rt p) (PanicHandlers p) @ additionalHandlers). returns r fn) \<longrightarrow>
      HandleCrash rt p additionalHandlers (Panic (Some r)) w =
        (if ReallyCrash p then Panic (Some r) else Normal,
         foldl (\<lambda>w fn. snd (fn r w)) w
           (map (call_registered rt p) (PanicHandlers p) @ additionalHandlers))) \<and>
   \<not> ReallyCrash (default_pkg log_Print) \<and>
   ((\<forall>str w. fst (log_Print str w) = Normal) \<and> (\<forall>fn \<in> set additionalHandlers. \<forall>r. returns r fn) \<longrightarrow>
      fst (HandleCrash rt (default_pkg log_Print) additionalHandlers ex w) = Normal)"
proof (intro conjI impI)
  assume ret: "\<forall>fn \<in> set (map (call_registered rt p) (PanicHandlers p) @ additionalHandlers). returns r fn"
  let ?reg = "map (call_registered rt p) (PanicHandlers p)"
  from ret have a: "\<forall>fn \<in> set ?reg. returns r fn" and b: "\<forall>fn \<in> set additionalHandlers. returns r fn"
    by auto
  show "HandleCrash rt p additionalHandlers (Panic (Some r)) w =
        (if ReallyCrash p then Panic (Some r) else Normal,
         foldl (\<lambda>w fn. snd (fn r w)) w (?reg @ additionalHandlers))"
    by (simp add: HandleCrash_def range_handlers_returns [OF a] range_handlers_returns [OF b])
next
  show "\<not> ReallyCrash (default_pkg log_Print)"
    by (simp add: default_pkg_def)
next
  assume h: "(\<forall>str w. fst (log_Print str w) = Normal) \<and> (\<forall>fn \<in> set additionalHandlers. \<forall>r. returns r fn)"
  show "fst (HandleCrash rt (default_pkg log_Print) additionalHandlers ex w) = Normal"
  proof (cases "recover ex")
    case None
    then show ?thesis by (simp add: HandleCrash_def)
  next
    case (Some r)
    let ?p = "default_pkg log_Print :: ('a, 'b) pkg"
    have lp: "returns r (logPanic rt ?p)"
      using h by (simp add: returns_def logPanic_trace default_pkg_def)
    then have a: "\<forall>fn \<in> set (map (call_registered rt ?p) (PanicHandlers ?p)). returns r fn"
      by (simp add: default_pkg_def)
    from h have b: "\<forall>fn \<in> set additionalHandlers. returns r fn"
      by simp
    have "\<not> ReallyCrash ?p"
      by (simp add: default_pkg_def)
    then show ?thesis
      using Some by (simp add: HandleCrash_def range_handlers_returns [OF a] range_handlers_returns [OF b])
  qed
qed

text \<open>
  The theorem at the initial package variables with a logger that appends to a list, once
  with \<open>ReallyCrash\<close> set and once as it is initially.
\<close>

theorem HandleCrash_reraises_iff_ReallyCrash_witness:
  "list_all (returns (Str ''boom''))
     (map (call_registered rt0 (default_pkg print_to_list\<lparr>ReallyCrash := True\<rparr>))
        (PanicHandlers (default_pkg print_to_list\<lparr>ReallyCrash := True\<rparr>)) @ []) \<and>
   fst (HandleCrash rt0 (default_pkg print_to_list\<lparr>ReallyCrash := True\<rparr>) [] (Panic (Some (Str ''boom''))) []) =
      Panic (Some (Str ''boom'')) \<and>
   (\<forall>str w. fst (print_to_list str w) = Normal) \<and>
   HandleCrash rt0 (default_pkg print_to_list) [] (Panic (Some (Str ''boom''))) [] =
      (Normal, [''Observed a panic: boom'' @ [CHR 0x0A] @ ''goroutine 7 [running]''])"
  using HandleCrash_reraises_iff_ReallyCrash [of rt0 "default_pkg print_to_list\<lparr>ReallyCrash := True\<rparr>" "[]" "Str ''boom''" "[]" print_to_list]
    HandleCrash_reraises_iff_ReallyCrash [of rt0 "default_pkg print_to_list" "[]" "Str ''boom''" "[]" print_to_list]
  by (simp add: returns_def logPanic_trace take_size_short rt0_def default_pkg_def print_to_list_def)

text \<open>
  Claim C7, as the specification states it: the trace that \<open>logPanic\<close> prints is that of all
  goroutines. It is not: with a second goroutine present, the message printed differs from
  the one that holds the traces of both.
\<close>

theorem logPanic_all_stacks_counterexample:
  "logPanic rt0 (default_pkg print_to_list) (Str ''boom'') [] \<noteq>
     PrintError (default_pkg print_to_list)
       (''Observed a panic: boom'' @ [CHR 0x0A] @
          take size_const (stack_current rt0 @ stack_others rt0)) []"
  by (simp add: logPanic_trace take_size_short rt0_def default_pkg_def print_to_list_def)

text \<open>
  Claim C7, amended. \<open>logPanic\<close> passes to \<open>PrintError\<close> one message: the recovered value
  (a string as it is, any other value in its two renderings), a line break, and the first
  64 KiB at most of the trace of the calling goroutine alone. \<open>PrintError\<close> is initially
  the standard logger.
\<close>

theorem logPanic_prints_current_stack:
  "logPanic rt p r w =
     PrintError p (''Observed a panic: '' @
        (case r of Str s \<Rightarrow> s | _ \<Rightarrow> fmt_GoSyntax rt r @ '' ('' @ fmt_Default rt r @ '')'') @
        [CHR 0x0A] @ take 65536 (stack_current rt)) w \<and>
   length (take 65536 (stack_current rt)) \<le> 64 * 1024 \<and>
   PrintError (default_pkg log_Print) = log_Print"
  by (simp add: logPanic_trace size_const_eq default_pkg_def)

section \<open>Runs of the supervision loops\<close>

text \<open>
  The two parts into which the model of the loops cuts the deferred \<open>HandleCrash\<close> of an
  attempt agree with \<open>HandleCrash\<close> itself, called with an additional handler that
  returns: the same world results, the attempt is blocked in its send exactly when all
  registered handlers returned, and what follows the send is decided by \<open>ReallyCrash\<close>.
\<close>

lemma deferred_agrees_with_HandleCrash:
  assumes "process s = Alive" "\<not> closed s" "recover ex = Some r"
  shows "(case deferred_until_send rt p ex s of
            (ret, s1) \<Rightarrow>
              \<not> ret \<and>
              world s1 = snd (HandleCrash rt p [\<lambda>_ w. (Normal, w)] ex (world s)) \<and>
              (case process s1 of
                 Died q \<Rightarrow> fst (HandleCrash rt p [\<lambda>_ w. (Normal, w)] ex (world s)) = Panic q
               | Alive \<Rightarrow>
                   senders s1 = senders s @ [Handler r] \<and>
                   fst (HandleCrash rt p [\<lambda>_ w. (Normal, w)] ex (world s)) =
                     (if ReallyCrash p then Panic (Some r) else Normal)))"
  using assms
  by (auto simp: deferred_until_send_def HandleCrash_def send_start_def die_def
      split: prod.splits exit.splits)

lemma run_append:
  "run step (es @ fs) s = (case run step es s of None \<Rightarrow> None | Some s' \<Rightarrow> run step fs s')"
  by (induction es arbitrary: s) (auto split: option.splits)

lemma run_Cons_Some:
  "run step (e # es) s = Some s' \<Longrightarrow> \<exists>s1. step e s = Some s1 \<and> run step es s1 = Some s'"
  by (auto split: option.splits)

lemma run_ticks:
  assumes step: "\<And>e s s'. e \<in> E \<Longrightarrow> I s \<Longrightarrow> step e s = Some s' \<Longrightarrow> I s' \<and> t s' = t s + (1::int)"
  shows "I s \<Longrightarrow> set es \<subseteq> E \<Longrightarrow> run step es s = Some s' \<Longrightarrow>
     I s' \<and> t s' = t s + int (length es)"
proof (induction es arbitrary: s)
  case Nil
  then show ?case by simp
next
  case (Cons e es)
  from run_Cons_Some [OF Cons.prems(3)] obtain s1 where
    s1: "step e s = Some s1" and rest: "run step es s1 = Some s'"
    by blast
  from Cons.prems(2) have "e \<in> E" "set es \<subseteq> E" by auto
  from step [OF this(1) Cons.prems(1) s1] have a: "I s1" "t s1 = t s + 1" by auto
  from Cons.IH [OF a(1) \<open>set es \<subseteq> E\<close> rest] a(2) show ?case by simp
qed

lemma run_invariant:
  assumes step: "\<And>e s s'. e \<in> E \<Longrightarrow> I s \<Longrightarrow> step e s = Some s' \<Longrightarrow> I s'"
  shows "I s \<Longrightarrow> set es \<subseteq> E \<Longrightarrow> run step es s = Some s' \<Longrightarrow> I s'"
proof (induction es arbitrary: s)
  case Nil
  then show ?case by simp
next
  case (Cons e es)
  from run_Cons_Some [OF Cons.prems(3)] obtain s1 where
    s1: "step e s = Some s1" and rest: "run step es s1 = Some s'"
    by blast
  from Cons.prems(2) have "e \<in> E" "set es \<subseteq> E" by auto
  from step [OF this(1) Cons.prems(1) s1] have "I s1" .
  from Cons.IH [OF this \<open>set es \<subseteq> E\<close> rest] show ?case .
qed



lemma registered_return:
  "handlers_return rt p \<Longrightarrow>
   range_handlers (map (call_registered rt p) (PanicHandlers p)) r w =
     (Normal, foldl (\<lambda>w fn. snd (fn r w)) w (map (call_registered rt p) (PanicHandlers p)))"
  by (rule range_handlers_returns) (simp add: handlers_return_def)

lemma attempt_runs_faults:
  assumes "running s > 0" "do (Suc (calls s)) (world s) = (Panic (Some r), w)"
    "handlers_return rt p" "\<not> closed s"
  shows "attempt_runs rt p do s =
     Some (s\<lparr>running := running s - 1, calls := Suc (calls s),
             world := foldl (\<lambda>w fn. snd (fn r w)) w (map (call_registered rt p) (PanicHandlers p)),
             senders := senders s @ [Handler r]\<rparr>)"
  using assms
  by (simp add: attempt_runs_def deferred_until_send_def registered_return send_start_def)

lemma attempt_runs_nil:
  assumes "running s > 0" "do (Suc (calls s)) (world s) = (Panic None, w)"
  shows "attempt_runs rt p do s =
     Some (s\<lparr>running := running s - 1, calls := Suc (calls s), world := w\<rparr>)"
  using assms
  by (simp add: attempt_runs_def deferred_until_send_def)

lemma attempt_runs_completes:
  assumes "running s > 0" "do (Suc (calls s)) (world s) = (Normal, w)"
    "\<not> closed s" "senders s = []"
  shows "attempt_runs rt p do s =
     Some (s\<lparr>running := running s - 1, calls := Suc (calls s), world := w, closed := True\<rparr>)"
  using assms
  by (simp add: attempt_runs_def deferred_until_send_def close_start_def)

lemma faults_atD: "faults_at do n \<Longrightarrow> \<exists>r w'. do n w = (Panic (Some r), w')"
  by (metis faults_at_def prod.collapse)

lemma inv_faulting_init: "inv_faulting (BlockingGo_init False w)"
  by (simp add: inv_faulting_def BlockingGo_init_def)

lemma receive_Some:
  "receive s = Some s' \<Longrightarrow>
   \<not> closed s \<and> (\<exists>x xs. senders s = x # xs \<and>
      s' = s\<lparr>senders := xs, resuming := resuming s @ (case x of Seeder \<Rightarrow> [] | Handler r \<Rightarrow> [r])\<rparr>)"
  by (auto simp: receive_def split: list.splits if_splits)

lemma resume_Some:
  "deferred_after_send p s = Some (b, s') \<Longrightarrow> \<not> ReallyCrash p \<Longrightarrow>
   \<exists>r rs. resuming s = r # rs \<and> b \<and> s' = s\<lparr>resuming := rs\<rparr>"
  by (auto simp: deferred_after_send_def split: list.splits if_splits)

lemma attempt_runs_running: "attempt_runs rt p do s = Some s' \<Longrightarrow> running s > 0"
  by (auto simp: attempt_runs_def split: if_splits)

lemma chan_step_faulting:
  assumes e: "e \<in> - {Cancel}"
    and inv: "inv_faulting s \<and> loop s = LWait"
    and step: "BlockingGo_chan_step rt p do e s = Some s'"
    and hyp: "\<not> ReallyCrash p" "handlers_return rt p" "\<forall>n. faults_at do n"
  shows "(inv_faulting s' \<and> loop s' = LWait) \<and> ticks_chan s' = ticks_chan s + 1"
proof (cases e)
  case Cancel
  with e show ?thesis by simp
next
  case Loop_Stop
  with step inv show ?thesis by (simp add: BlockingGo_chan_step_def inv_faulting_def)
next
  case Loop_Receive
  with step inv obtain s1 where r: "receive s = Some s1" and l: "s' = launch s1"
    by (auto simp: BlockingGo_chan_step_def inv_faulting_def)
  from receive_Some [OF r] obtain x xs where
    x: "senders s = x # xs" and s1: "s1 = s\<lparr>senders := xs,
      resuming := resuming s @ (case x of Seeder \<Rightarrow> [] | Handler r \<Rightarrow> [r])\<rparr>"
    by blast
  from inv x show ?thesis
    unfolding l s1 by (cases x) (clarsimp simp: inv_faulting_def launch_def ticks_chan_def)+
next
  case Loop_Closed
  with step inv show ?thesis by (simp add: BlockingGo_chan_step_def inv_faulting_def)
next
  case Loop_Check
  with step inv show ?thesis by (simp add: BlockingGo_chan_step_def inv_faulting_def)
next
  case Loop_Launch
  with step inv show ?thesis by (simp add: BlockingGo_chan_step_def inv_faulting_def)
next
  case Attempt_Runs
  from step Attempt_Runs inv have st: "attempt_runs rt p do s = Some s'"
    by (simp add: BlockingGo_chan_step_def inv_faulting_def)
  from attempt_runs_running [OF st] have run: "running s > 0" .
  from hyp(3) have "faults_at do (Suc (calls s))" by simp
  from faults_atD [OF this, of "world s"] obtain r w where
    d: "do (Suc (calls s)) (world s) = (Panic (Some r), w)"
    by auto
  from inv have nc: "\<not> closed s" by (simp add: inv_faulting_def)
  from attempt_runs_faults [where s = s and ?do = "do", OF run d hyp(2) nc] st
  have s': "s' = s\<lparr>running := running s - 1, calls := Suc (calls s),
      world := foldl (\<lambda>w fn. snd (fn r w)) w (map (call_registered rt p) (PanicHandlers p)),
      senders := senders s @ [Handler r]\<rparr>"
    by simp
  from inv run have "senders s = []"
    by (cases "senders s") (auto simp: inv_faulting_def)
  with inv run show ?thesis
    unfolding s' by (clarsimp simp: inv_faulting_def ticks_chan_def)
next
  case Attempt_Resumes
  with step inv obtain b where "deferred_after_send p s = Some (b, s')"
    by (auto simp: BlockingGo_chan_step_def inv_faulting_def)
  from resume_Some [OF this hyp(1)] obtain r rs where
    r: "resuming s = r # rs" and s': "s' = s\<lparr>resuming := rs\<rparr>"
    by blast
  from inv r show ?thesis
    unfolding s' by (clarsimp simp: inv_faulting_def ticks_chan_def)
qed

lemma ctx_step_faulting:
  assumes e: "e \<in> - {Cancel}"
    and inv: "inv_faulting s"
    and step: "BlockingGo_ctx_step rt p do e s = Some s'"
    and hyp: "\<not> ReallyCrash p" "handlers_return rt p" "\<forall>c n. faults_at (do c) n"
  shows "inv_faulting s' \<and> ticks_ctx s' = ticks_ctx s + 1"
proof (cases e)
  case Cancel
  with e show ?thesis by simp
next
  case Loop_Stop
  with step inv show ?thesis by (simp add: BlockingGo_ctx_step_def inv_faulting_def)
next
  case Loop_Receive
  with step inv obtain s1 where r: "receive s = Some s1" and l: "s' = s1\<lparr>loop := LCheck\<rparr>"
    and lw: "loop s = LWait"
    by (auto simp: BlockingGo_ctx_step_def inv_faulting_def split: if_splits)
  from receive_Some [OF r] obtain x xs where
    x: "senders s = x # xs" and s1: "s1 = s\<lparr>senders := xs,
      resuming := resuming s @ (case x of Seeder \<Rightarrow> [] | Handler r \<Rightarrow> [r])\<rparr>"
    by blast
  from inv x lw show ?thesis
    unfolding l s1 by (cases x) (clarsimp simp: inv_faulting_def ticks_ctx_def)+
next
  case Loop_Closed
  with step inv show ?thesis by (simp add: BlockingGo_ctx_step_def inv_faulting_def)
next
  case Loop_Check
  with step inv have lc: "loop s = LCheck" and s': "s' = s\<lparr>loop := LLaunch\<rparr>"
    by (auto simp: BlockingGo_ctx_step_def inv_faulting_def split: if_splits)
  from inv lc show ?thesis
    unfolding s' by (simp add: inv_faulting_def ticks_ctx_def)
next
  case Loop_Launch
  with step inv have ll: "loop s = LLaunch" and s': "s' = launch (s\<lparr>loop := LWait\<rparr>)"
    by (auto simp: BlockingGo_ctx_step_def inv_faulting_def split: if_splits)
  from inv ll show ?thesis
    unfolding s' by (simp add: inv_faulting_def launch_def ticks_ctx_def)
next
  case Attempt_Runs
  from step Attempt_Runs inv have st: "attempt_runs rt p (do (stop s)) s = Some s'"
    by (simp add: BlockingGo_ctx_step_def inv_faulting_def)
  from attempt_runs_running [OF st] have run: "running s > 0" .
  from hyp(3) have "faults_at (do (stop s)) (Suc (calls s))" by simp
  from faults_atD [OF this, of "world s"] obtain r w where
    d: "do (stop s) (Suc (calls s)) (world s) = (Panic (Some r), w)"
    by auto
  from inv have nc: "\<not> closed s" by (simp add: inv_faulting_def)
  from attempt_runs_faults [where s = s and ?do = "do (stop s)", OF run d hyp(2) nc] st
  have s': "s' = s\<lparr>running := running s - 1, calls := Suc (calls s),
      world := foldl (\<lambda>w fn. snd (fn r w)) w (map (call_registered rt p) (PanicHandlers p)),
      senders := senders s @ [Handler r]\<rparr>"
    by simp
  from inv run have "loop s = LWait"
    by (cases "loop s") (auto simp: inv_faulting_def split: if_splits)
  moreover from inv run have "senders s = []"
    by (cases "senders s") (auto simp: inv_faulting_def split: if_splits)
  ultimately show ?thesis using inv run
    unfolding s' by (clarsimp simp: inv_faulting_def ticks_ctx_def)
next
  case Attempt_Resumes
  with step inv obtain b where "deferred_after_send p s = Some (b, s')"
    by (auto simp: BlockingGo_ctx_step_def inv_faulting_def)
  from resume_Some [OF this hyp(1)] obtain r rs where
    r: "resuming s = r # rs" and s': "s' = s\<lparr>resuming := rs\<rparr>"
    by blast
  from inv r show ?thesis
    unfolding s' by (clarsimp simp: inv_faulting_def ticks_ctx_def)
qed

lemma attempt_runs_enabled: "running s > 0 \<Longrightarrow> attempt_runs rt p do s \<noteq> None"
  by (simp add: attempt_runs_def Let_def split: prod.splits)

lemma receive_enabled: "senders s \<noteq> [] \<Longrightarrow> \<not> closed s \<Longrightarrow> receive s \<noteq> None"
  by (cases "senders s") (simp_all add: receive_def)

lemma chan_can_step_faulting:
  assumes "inv_faulting s" "loop s = LWait"
  shows "can_step (BlockingGo_chan_step rt p do) s"
proof (cases "senders s = []")
  case True
  with assms have "running s > 0" by (simp add: inv_faulting_def)
  from attempt_runs_enabled [OF this] assms
  have "BlockingGo_chan_step rt p do Attempt_Runs s \<noteq> None"
    by (simp add: BlockingGo_chan_step_def inv_faulting_def)
  then show ?thesis unfolding can_step_def by blast
next
  case False
  with assms have "receive s \<noteq> None"
    by (simp add: receive_enabled inv_faulting_def)
  with assms have "BlockingGo_chan_step rt p do Loop_Receive s \<noteq> None"
    by (simp add: BlockingGo_chan_step_def inv_faulting_def)
  then show ?thesis unfolding can_step_def by blast
qed

lemma ctx_can_step_faulting:
  assumes "inv_faulting s"
  shows "can_step (BlockingGo_ctx_step rt p do) s"
proof (cases "loop s = LCheck")
  case True
  with assms have "BlockingGo_ctx_step rt p do Loop_Check s \<noteq> None"
    by (simp add: BlockingGo_ctx_step_def inv_faulting_def)
  then show ?thesis unfolding can_step_def by blast
next
  case nc: False
  show ?thesis
  proof (cases "loop s = LLaunch")
    case True
    with assms have "BlockingGo_ctx_step rt p do Loop_Launch s \<noteq> None"
      by (simp add: BlockingGo_ctx_step_def inv_faulting_def)
    then show ?thesis unfolding can_step_def by blast
  next
    case False
  with nc assms have lw: "loop s = LWait" by (cases "loop s") (simp_all add: inv_faulting_def)
  show ?thesis
  proof (cases "senders s = []")
    case True
    with assms lw have "running s > 0" by (simp add: inv_faulting_def)
    from attempt_runs_enabled [OF this] assms
    have "BlockingGo_ctx_step rt p do Attempt_Runs s \<noteq> None"
      by (simp add: BlockingGo_ctx_step_def inv_faulting_def)
    then show ?thesis unfolding can_step_def by blast
  next
    case False
    with assms have "receive s \<noteq> None"
      by (simp add: receive_enabled inv_faulting_def)
    with assms lw have "BlockingGo_ctx_step rt p do Loop_Receive s \<noteq> None"
      by (simp add: BlockingGo_ctx_step_def inv_faulting_def)
    then show ?thesis unfolding can_step_def by blast
  qed
  qed
qed

lemma can_step_event:
  "can_step step s \<Longrightarrow> \<exists>e s'. e \<noteq> Cancel \<and> step e s = Some s'"
  unfolding can_step_def by auto

lemma run_snoc:
  "run step es s = Some s1 \<Longrightarrow> step e s1 = Some s2 \<Longrightarrow> run step (es @ [e]) s = Some s2"
  by (simp add: run_append)

lemma chan_run_faulting:
  assumes hyp: "\<not> ReallyCrash p" "handlers_return rt p" "\<forall>n. faults_at do n"
    and es: "Cancel \<notin> set es"
    and run: "run (BlockingGo_chan_step rt p do) es (BlockingGo_init False w) = Some s"
  shows "inv_faulting s \<and> loop s = LWait \<and> ticks_chan s = int (length es)"
proof -
  have i: "inv_faulting (BlockingGo_init False w) \<and> loop (BlockingGo_init False w :: ('a, 'b) cstate) = LWait"
    by (simp add: inv_faulting_init) (simp add: BlockingGo_init_def)
  from es have sub: "set es \<subseteq> - {Cancel}" by auto
  have "(inv_faulting s \<and> loop s = LWait) \<and>
      ticks_chan s = ticks_chan (BlockingGo_init False w :: ('a, 'b) cstate) + int (length es)"
    by (rule run_ticks [where E = "- {Cancel}" and step = "BlockingGo_chan_step rt p do"
          and I = "\<lambda>s. inv_faulting s \<and> loop s = LWait" and t = ticks_chan, OF _ i sub run])
      (rule chan_step_faulting [OF _ _ _ hyp])
  then show ?thesis
    by (simp add: ticks_chan_def BlockingGo_init_def)
qed

lemma ctx_run_faulting:
  assumes hyp: "\<not> ReallyCrash p" "handlers_return rt p" "\<forall>c n. faults_at (do c) n"
    and es: "Cancel \<notin> set es"
    and run: "run (BlockingGo_ctx_step rt p do) es (BlockingGo_init False w) = Some s"
  shows "inv_faulting s \<and> ticks_ctx s = int (length es)"
proof -
  from es have sub: "set es \<subseteq> - {Cancel}" by auto
  have "inv_faulting s \<and>
      ticks_ctx s = ticks_ctx (BlockingGo_init False w :: ('a, 'b) cstate) + int (length es)"
    by (rule run_ticks [where E = "- {Cancel}" and step = "BlockingGo_ctx_step rt p do"
          and I = inv_faulting and t = ticks_ctx, OF _ inv_faulting_init sub run])
      (rule ctx_step_faulting [OF _ _ _ hyp])
  then show ?thesis
    by (simp add: ticks_ctx_def BlockingGo_init_def)
qed

lemma chan_long_runs:
  assumes hyp: "\<not> ReallyCrash p" "handlers_return rt p" "\<forall>n. faults_at do n"
  shows "\<exists>es s. Cancel \<notin> set es \<and> length es = L \<and>
     run (BlockingGo_chan_step rt p do) es (BlockingGo_init False w) = Some s"
proof (induction L)
  case 0
  show ?case by (rule exI [of _ "[]"]) simp
next
  case (Suc L)
  then obtain es s where es: "Cancel \<notin> set es" "length es = L"
    and run: "run (BlockingGo_chan_step rt p do) es (BlockingGo_init False w) = Some s"
    by blast
  from chan_run_faulting [OF hyp es(1) run] have "can_step (BlockingGo_chan_step rt p do) s"
    by (simp add: chan_can_step_faulting)
  from can_step_event [OF this] obtain e s' where
    e: "e \<noteq> Cancel" "BlockingGo_chan_step rt p do e s = Some s'"
    by blast
  from run_snoc [OF run e(2)] es e(1) show ?case
    by (intro exI [of _ "es @ [e]"] exI [of _ s']) simp
qed

lemma ctx_long_runs:
  assumes hyp: "\<not> ReallyCrash p" "handlers_return rt p" "\<forall>c n. faults_at (do c) n"
  shows "\<exists>es s. Cancel \<notin> set es \<and> length es = L \<and>
     run (BlockingGo_ctx_step rt p do) es (BlockingGo_init False w) = Some s"
proof (induction L)
  case 0
  show ?case by (rule exI [of _ "[]"]) simp
next
  case (Suc L)
  then obtain es s where es: "Cancel \<notin> set es" "length es = L"
    and run: "run (BlockingGo_ctx_step rt p do) es (BlockingGo_init False w) = Some s"
    by blast
  from ctx_run_faulting [OF hyp es(1) run] have "can_step (BlockingGo_ctx_step rt p do) s"
    by (simp add: ctx_can_step_faulting)
  from can_step_event [OF this] obtain e s' where
    e: "e \<noteq> Cancel" "BlockingGo_ctx_step rt p do e s = Some s'"
    by blast
  from run_snoc [OF run e(2)] es e(1) show ?case
    by (intro exI [of _ "es @ [e]"] exI [of _ s']) simp
qed

text \<open>
  Claim C1. \<open>ReallyCrash\<close> is off and the registered handlers return; the unit of work
  faults at every call, and the stop channel is never closed (the context never
  cancelled). Then, in every run, the loop has not returned, the program has not died,
  the channel \<open>start\<close> is open and a further step is possible; each attempt accounts for
  at most three steps (five with a context), so the attempts launched grow with the
  length of the run; and for every number there is a run that launches at least as many
  attempts. This holds for the loop with a stop channel and for the loop with a context.
\<close>

theorem BlockingGo_restarts_indefinitely:
  assumes "\<not> ReallyCrash p" and "handlers_return rt p"
  shows "((\<forall>n. faults_at do n) \<longrightarrow>
      (\<forall>es s. Cancel \<notin> set es \<and>
          run (BlockingGo_chan_step rt p do) es (BlockingGo_init False w) = Some s \<longrightarrow>
          loop s = LWait \<and> process s = Alive \<and> \<not> closed s \<and>
          can_step (BlockingGo_chan_step rt p do) s \<and> length es \<le> 3 * launched s) \<and>
      (\<forall>N. \<exists>es s. Cancel \<notin> set es \<and>
          run (BlockingGo_chan_step rt p do) es (BlockingGo_init False w) = Some s \<and>
          N \<le> launched s)) \<and>
    ((\<forall>c n. faults_at (do' c) n) \<longrightarrow>
      (\<forall>es s. Cancel \<notin> set es \<and>
          run (BlockingGo_ctx_step rt p do') es (BlockingGo_init False w) = Some s \<longrightarrow>
          loop s \<noteq> LReturned \<and> process s = Alive \<and> \<not> closed s \<and>
          can_step (BlockingGo_ctx_step rt p do') s \<and> length es \<le> 5 * launched s + 2) \<and>
      (\<forall>N. \<exists>es s. Cancel \<notin> set es \<and>
          run (BlockingGo_ctx_step rt p do') es (BlockingGo_init False w) = Some s \<and>
          N \<le> launched s))"
proof (intro conjI impI allI)
  fix es s
  assume f: "\<forall>n. faults_at do n"
    and r: "Cancel \<notin> set es \<and> run (BlockingGo_chan_step rt p do) es (BlockingGo_init False w) = Some s"
  from chan_run_faulting [OF assms f] r
  have i: "inv_faulting s" "loop s = LWait" "ticks_chan s = int (length es)"
    by auto
  from i(1,2) show "loop s = LWait" "process s = Alive" "\<not> closed s"
    by (simp_all add: inv_faulting_def)
  from i(1,2) show "can_step (BlockingGo_chan_step rt p do) s"
    by (rule chan_can_step_faulting)
  from i show "length es \<le> 3 * launched s"
    by (simp add: inv_faulting_def ticks_chan_def)
next
  fix N
  assume f: "\<forall>n. faults_at do n"
  from chan_long_runs [OF assms f, of "3 * N" w] obtain es s where
    es: "Cancel \<notin> set es" "length es = 3 * N"
    and run: "run (BlockingGo_chan_step rt p do) es (BlockingGo_init False w) = Some s"
    by blast
  from chan_run_faulting [OF assms f es(1) run] es(2) have "N \<le> launched s"
    by (simp add: inv_faulting_def ticks_chan_def)
  with es run show "\<exists>es s. Cancel \<notin> set es \<and>
      run (BlockingGo_chan_step rt p do) es (BlockingGo_init False w) = Some s \<and> N \<le> launched s"
    by blast
next
  fix es s
  assume f: "\<forall>c n. faults_at (do' c) n"
    and r: "Cancel \<notin> set es \<and> run (BlockingGo_ctx_step rt p do') es (BlockingGo_init False w) = Some s"
  from ctx_run_faulting [OF assms f] r
  have i: "inv_faulting s" "ticks_ctx s = int (length es)"
    by auto
  from i(1) show "loop s \<noteq> LReturned" "process s = Alive" "\<not> closed s"
    by (auto simp: inv_faulting_def)
  from i(1) show "can_step (BlockingGo_ctx_step rt p do') s"
    by (rule ctx_can_step_faulting)
  from i show "length es \<le> 5 * launched s + 2"
    by (simp add: inv_faulting_def ticks_ctx_def split: if_splits)
next
  fix N
  assume f: "\<forall>c n. faults_at (do' c) n"
  from ctx_long_runs [OF assms f, of "5 * N + 2" w] obtain es s where
    es: "Cancel \<notin> set es" "length es = 5 * N + 2"
    and run: "run (BlockingGo_ctx_step rt p do') es (BlockingGo_init False w) = Some s"
    by blast
  from ctx_run_faulting [OF assms f es(1) run] es(2) have "N \<le> launched s"
    by (simp add: inv_faulting_def ticks_ctx_def split: if_splits)
  with es run show "\<exists>es s. Cancel \<notin> set es \<and>
      run (BlockingGo_ctx_step rt p do') es (BlockingGo_init False w) = Some s \<and> N \<le> launched s"
    by blast
qed


lemma handlers_return_pkg0: "handlers_return rt0 pkg0"
  by (simp add: handlers_return_def pkg0_def returns_def logPanic_trace)

lemma always_boom_faults: "faults_at always_boom n"
  by (simp add: faults_at_def always_boom_def)

lemmas step_simps =
  BlockingGo_chan_step_def BlockingGo_ctx_step_def BlockingGo_init_def receive_def launch_def
  attempt_runs_def deferred_until_send_def deferred_after_send_def send_start_def close_start_def
  die_def logPanic_trace

text \<open>
  The theorem at a unit of work that counts its calls in the world and panics with a
  string, after two attempts of either loop.
\<close>

theorem BlockingGo_restarts_indefinitely_witness:
  "\<not> ReallyCrash pkg0 \<and> handlers_return rt0 pkg0 \<and> (\<forall>n. faults_at always_boom n) \<and>
   run (BlockingGo_chan_step rt0 pkg0 always_boom)
     [Loop_Receive, Attempt_Runs, Loop_Receive, Attempt_Resumes, Attempt_Runs]
     (BlockingGo_init False 0) =
   Some \<lparr>loop = LWait, closed = False, senders = [Handler (Str ''panicked'')], running = 0,
     resuming = [], launched = 2, calls = 2, world = 2, process = Alive, stop = False\<rparr> \<and>
   can_step (BlockingGo_chan_step rt0 pkg0 always_boom)
     \<lparr>loop = LWait, closed = False, senders = [Handler (Str ''panicked'')], running = 0,
     resuming = [], launched = 2, calls = 2, world = 2, process = Alive, stop = False\<rparr> \<and>
   run (BlockingGo_ctx_step rt0 pkg0 (\<lambda>_. always_boom))
     [Loop_Receive, Loop_Check, Loop_Launch, Attempt_Runs, Loop_Receive, Attempt_Resumes,
      Loop_Check, Loop_Launch]
     (BlockingGo_init False 0) =
   Some \<lparr>loop = LWait, closed = False, senders = [], running = 1,
     resuming = [], launched = 2, calls = 1, world = 1, process = Alive, stop = False\<rparr>"
  using BlockingGo_restarts_indefinitely [of pkg0 rt0 always_boom 0 "\<lambda>_. always_boom"]
  by (simp add: handlers_return_pkg0 always_boom_faults)
    (simp add: step_simps pkg0_def always_boom_def can_step_def)

section \<open>A unit of work whose \<open>K\<close>-th call is the last\<close>

lemma completes_atD: "completes_at do n \<Longrightarrow> \<exists>w'. do n w = (Normal, w')"
  by (metis completes_at_def prod.collapse)

lemma nil_panics_atD: "nil_panics_at do n \<Longrightarrow> \<exists>w'. do n w = (Panic None, w')"
  by (metis nil_panics_at_def prod.collapse)

lemma resume_Some':
  "deferred_after_send p s = Some (b, s') \<Longrightarrow> \<not> ReallyCrash p \<Longrightarrow>
   \<exists>r rs. resuming s = r # rs \<and> s' = s\<lparr>resuming := rs\<rparr>"
  by (auto simp: deferred_after_send_def split: list.splits if_splits)

text \<open>What the \<open>n\<close>-th call does to the state, by how it ends.\<close>

lemma attempt_runs_until:
  assumes hyp: "handlers_return rt p" "faults_before do K"
      "if ok then completes_at do K else nil_panics_at do K"
    and st: "attempt_runs rt p do s = Some s'"
    and s: "\<not> closed s" "senders s = []" "calls s < K"
  shows "running s > 0 \<and>
     (if Suc (calls s) < K
      then \<exists>r w. s' = s\<lparr>running := running s - 1, calls := Suc (calls s), world := w,
                senders := [Handler r]\<rparr>
      else if ok
      then s' = s\<lparr>running := running s - 1, calls := Suc (calls s),
                world := snd (do (Suc (calls s)) (world s)), closed := True\<rparr>
      else s' = s\<lparr>running := running s - 1, calls := Suc (calls s),
                world := snd (do (Suc (calls s)) (world s))\<rparr>)"
proof -
  from attempt_runs_running [OF st] have run: "running s > 0" .
  show ?thesis
  proof (cases "Suc (calls s) < K")
    case True
    with hyp(2) have "faults_at do (Suc (calls s))" by (simp add: faults_before_def)
    from faults_atD [OF this, of "world s"] obtain r w where
      d: "do (Suc (calls s)) (world s) = (Panic (Some r), w)"
      by auto
    from attempt_runs_faults [where s = s and ?do = "do", OF run d hyp(1) s(1)] st s(2)
    have "s' = s\<lparr>running := running s - 1, calls := Suc (calls s),
        world := foldl (\<lambda>w fn. snd (fn r w)) w (map (call_registered rt p) (PanicHandlers p)),
        senders := [Handler r]\<rparr>"
      by simp
    with True run show ?thesis by auto
  next
    case False
    with s(3) have k: "Suc (calls s) = K" by simp
    show ?thesis
    proof (cases ok)
      case True
      with hyp(3) k have "completes_at do (Suc (calls s))" by simp
      from completes_atD [OF this, of "world s"] obtain w where
        d: "do (Suc (calls s)) (world s) = (Normal, w)"
        by auto
      from attempt_runs_completes [where s = s and ?do = "do", OF run d s(1,2)] st d
      have "s' = s\<lparr>running := running s - 1, calls := Suc (calls s),
          world := snd (do (Suc (calls s)) (world s)), closed := True\<rparr>"
        by simp
      with True False run show ?thesis by simp
    next
      case nok: False
      with hyp(3) k have "nil_panics_at do (Suc (calls s))" by simp
      from nil_panics_atD [OF this, of "world s"] obtain w where
        d: "do (Suc (calls s)) (world s) = (Panic None, w)"
        by auto
      from attempt_runs_nil [where s = s and ?do = "do", OF run d] st d
      have "s' = s\<lparr>running := running s - 1, calls := Suc (calls s),
          world := snd (do (Suc (calls s)) (world s))\<rparr>"
        by simp
      with nok False run show ?thesis by simp
    qed
  qed
qed

lemma chan_step_until:
  assumes hyp: "\<not> ReallyCrash p" "handlers_return rt p" "faults_before do K"
      "if ok then completes_at do K else nil_panics_at do K"
    and inv: "inv_until K ok (stop s) s"
    and step: "BlockingGo_chan_step rt p do e s = Some s'"
  shows "inv_until K ok (stop s') s' \<and>
     (e \<noteq> Cancel \<and> \<not> stop s \<longrightarrow>
        \<not> stop s' \<and> ticks_chan_until K s' = ticks_chan_until K s + 1)"
proof (cases e)
  case Cancel
  with step inv have "s' = s\<lparr>stop := True\<rparr>"
    by (auto simp: BlockingGo_chan_step_def inv_until_def split: if_splits)
  with inv Cancel show ?thesis
    by (clarsimp simp: inv_until_def tokens_def)
next
  case Loop_Stop
  with step inv have "s' = s\<lparr>loop := LReturned\<rparr>" "stop s" "loop s = LWait"
    by (auto simp: BlockingGo_chan_step_def inv_until_def split: if_splits)
  with inv show ?thesis
    by (clarsimp simp: inv_until_def tokens_def)
next
  case Loop_Receive
  with step inv obtain s1 where r: "receive s = Some s1" and l: "s' = launch s1"
    and lw: "loop s = LWait"
    by (auto simp: BlockingGo_chan_step_def inv_until_def split: if_splits)
  from receive_Some [OF r] obtain x xs where
    x: "senders s = x # xs" "\<not> closed s" and s1: "s1 = s\<lparr>senders := xs,
      resuming := resuming s @ (case x of Seeder \<Rightarrow> [] | Handler r \<Rightarrow> [r])\<rparr>"
    by blast
  from inv x lw have z: "xs = []" "running s = 0" "calls s < K"
    by (auto simp: inv_until_def tokens_def)
  from inv x lw z show ?thesis
    unfolding l s1
    by (cases x)
      (clarsimp simp: inv_until_def tokens_def launch_def ticks_chan_until_def ticks_chan_def)+
next
  case Loop_Closed
  with step inv have s': "s' = s\<lparr>loop := LReturned\<rparr>" and c: "closed s" "loop s = LWait"
    by (auto simp: BlockingGo_chan_step_def inv_until_def split: if_splits)
  from inv c have "tokens s = 0" "calls s = K"
    by (cases "senders s"; auto simp: inv_until_def tokens_def)+
  with inv c show ?thesis
    unfolding s'
    by (clarsimp simp: inv_until_def tokens_def ticks_chan_until_def ticks_chan_def)
next
  case Loop_Check
  with step inv show ?thesis by (simp add: BlockingGo_chan_step_def inv_until_def)
next
  case Loop_Launch
  with step inv show ?thesis by (simp add: BlockingGo_chan_step_def inv_until_def)
next
  case Attempt_Runs
  from step Attempt_Runs inv have st: "attempt_runs rt p do s = Some s'"
    by (simp add: BlockingGo_chan_step_def inv_until_def)
  from attempt_runs_running [OF st] have run: "running s > 0" .
  with inv have z: "senders s = []" "calls s < K" "running s = 1"
    by (cases "senders s"; auto simp: inv_until_def tokens_def)+
  with inv have nc: "\<not> closed s"
    by (auto simp: inv_until_def)
  from attempt_runs_until [where ?do = "do", OF hyp(2-4) st nc z(1,2)]
  have s': "if Suc (calls s) < K
      then \<exists>r w. s' = s\<lparr>running := running s - 1, calls := Suc (calls s), world := w,
                senders := [Handler r]\<rparr>
      else if ok
      then s' = s\<lparr>running := running s - 1, calls := Suc (calls s),
                world := snd (do (Suc (calls s)) (world s)), closed := True\<rparr>
      else s' = s\<lparr>running := running s - 1, calls := Suc (calls s),
                world := snd (do (Suc (calls s)) (world s))\<rparr>"
    by (rule conjunct2)
  show ?thesis
  proof (cases "Suc (calls s) < K")
    case True
    with s' obtain r w where "s' = s\<lparr>running := running s - 1, calls := Suc (calls s),
        world := w, senders := [Handler r]\<rparr>"
      by auto
    with inv z nc True show ?thesis
      by (clarsimp simp: inv_until_def tokens_def ticks_chan_until_def ticks_chan_def)
  next
    case False
    with z have k: "Suc (calls s) = K" by simp
    show ?thesis
    proof (cases ok)
      case True
      with s' False have "s' = s\<lparr>running := running s - 1, calls := Suc (calls s),
          world := snd (do (Suc (calls s)) (world s)), closed := True\<rparr>"
        by simp
      with inv z nc k True show ?thesis
        by (clarsimp simp: inv_until_def tokens_def ticks_chan_until_def ticks_chan_def)
    next
      case nok: False
      with s' False have "s' = s\<lparr>running := running s - 1, calls := Suc (calls s),
          world := snd (do (Suc (calls s)) (world s))\<rparr>"
        by simp
      with inv z nc k nok show ?thesis
        by (clarsimp simp: inv_until_def tokens_def ticks_chan_until_def ticks_chan_def)
    qed
  qed
next
  case Attempt_Resumes
  with step inv obtain b where "deferred_after_send p s = Some (b, s')"
    by (auto simp: BlockingGo_chan_step_def inv_until_def)
  from resume_Some' [OF this hyp(1)] obtain r rs where
    r: "resuming s = r # rs" and s': "s' = s\<lparr>resuming := rs\<rparr>"
    by blast
  from inv r show ?thesis
    unfolding s'
    by (clarsimp simp: inv_until_def tokens_def ticks_chan_until_def ticks_chan_def)
qed

lemma ctx_step_until:
  assumes hyp: "\<not> ReallyCrash p" "handlers_return rt p" "\<forall>c. faults_before (do c) K"
      "\<forall>c. if ok then completes_at (do c) K else nil_panics_at (do c) K"
    and inv: "inv_until K ok (stop s) s"
    and step: "BlockingGo_ctx_step rt p do e s = Some s'"
  shows "inv_until K ok (stop s') s' \<and>
     (e \<noteq> Cancel \<and> \<not> stop s \<longrightarrow>
        \<not> stop s' \<and> ticks_ctx_until K s' = ticks_ctx_until K s + 1)"
proof (cases e)
  case Cancel
  with step inv have "s' = s\<lparr>stop := True\<rparr>"
    by (auto simp: BlockingGo_ctx_step_def inv_until_def split: if_splits)
  with inv Cancel show ?thesis
    by (clarsimp simp: inv_until_def tokens_def)
next
  case Loop_Stop
  with step inv show ?thesis by (simp add: BlockingGo_ctx_step_def inv_until_def)
next
  case Loop_Receive
  with step inv obtain s1 where r: "receive s = Some s1" and l: "s' = s1\<lparr>loop := LCheck\<rparr>"
    and lw: "loop s = LWait"
    by (auto simp: BlockingGo_ctx_step_def inv_until_def split: if_splits)
  from receive_Some [OF r] obtain x xs where
    x: "senders s = x # xs" "\<not> closed s" and s1: "s1 = s\<lparr>senders := xs,
      resuming := resuming s @ (case x of Seeder \<Rightarrow> [] | Handler r \<Rightarrow> [r])\<rparr>"
    by blast
  from inv x lw have z: "xs = []" "running s = 0" "calls s < K"
    by (auto simp: inv_until_def tokens_def)
  from inv x lw z show ?thesis
    unfolding l s1
    by (cases x)
      (clarsimp simp: inv_until_def tokens_def ticks_ctx_until_def ticks_ctx_def)+
next
  case Loop_Closed
  with step inv have s': "s' = s\<lparr>loop := LReturned\<rparr>" and c: "closed s" "loop s = LWait"
    by (auto simp: BlockingGo_ctx_step_def inv_until_def split: if_splits)
  from inv c have "tokens s = 0" "calls s = K"
    by (cases "senders s"; auto simp: inv_until_def tokens_def)+
  with inv c show ?thesis
    unfolding s'
    by (clarsimp simp: inv_until_def tokens_def ticks_ctx_until_def ticks_ctx_def)
next
  case Loop_Check
  with step inv have lc: "loop s = LCheck"
    and s': "s' = (if stop s then s\<lparr>loop := LReturned\<rparr> else s\<lparr>loop := LLaunch\<rparr>)"
    by (auto simp: BlockingGo_ctx_step_def inv_until_def split: if_splits)
  from inv lc have z: "senders s = []" "running s = 0" "calls s < K"
    by (cases "senders s"; auto simp: inv_until_def tokens_def)+
  from inv lc z show ?thesis
    unfolding s'
    by (clarsimp simp: inv_until_def tokens_def ticks_ctx_until_def ticks_ctx_def)
next
  case Loop_Launch
  with step inv have ll: "loop s = LLaunch" and s': "s' = launch (s\<lparr>loop := LWait\<rparr>)"
    by (auto simp: BlockingGo_ctx_step_def inv_until_def split: if_splits)
  from inv ll have z: "senders s = []" "running s = 0" "calls s < K"
    by (cases "senders s"; auto simp: inv_until_def tokens_def)+
  from inv ll z show ?thesis
    unfolding s'
    by (clarsimp simp: inv_until_def tokens_def launch_def ticks_ctx_until_def ticks_ctx_def)
next
  case Attempt_Runs
  from step Attempt_Runs inv have st: "attempt_runs rt p (do (stop s)) s = Some s'"
    by (simp add: BlockingGo_ctx_step_def inv_until_def)
  from attempt_runs_running [OF st] have run: "running s > 0" .
  with inv have z: "senders s = []" "calls s < K" "running s = 1" "loop s \<noteq> LCheck"
    by (cases "senders s"; auto simp: inv_until_def tokens_def split: if_splits)+
  with inv have nc: "\<not> closed s"
    by (auto simp: inv_until_def)
  from hyp(3,4) have h: "faults_before (do (stop s)) K"
    "if ok then completes_at (do (stop s)) K else nil_panics_at (do (stop s)) K"
    by simp_all
  from attempt_runs_until [where ?do = "do (stop s)", OF hyp(2) h st nc z(1,2)]
  have s': "if Suc (calls s) < K
      then \<exists>r w. s' = s\<lparr>running := running s - 1, calls := Suc (calls s), world := w,
                senders := [Handler r]\<rparr>
      else if ok
      then s' = s\<lparr>running := running s - 1, calls := Suc (calls s),
                world := snd (do (stop s) (Suc (calls s)) (world s)), closed := True\<rparr>
      else s' = s\<lparr>running := running s - 1, calls := Suc (calls s),
                world := snd (do (stop s) (Suc (calls s)) (world s))\<rparr>"
    by (rule conjunct2)
  show ?thesis
  proof (cases "Suc (calls s) < K")
    case True
    with s' obtain r w where "s' = s\<lparr>running := running s - 1, calls := Suc (calls s),
        world := w, senders := [Handler r]\<rparr>"
      by auto
    with inv z nc True show ?thesis
      by (clarsimp simp: inv_until_def tokens_def ticks_ctx_until_def ticks_ctx_def)
  next
    case False
    with z have k: "Suc (calls s) = K" by simp
    show ?thesis
    proof (cases ok)
      case True
      with s' False have "s' = s\<lparr>running := running s - 1, calls := Suc (calls s),
          world := snd (do (stop s) (Suc (calls s)) (world s)), closed := True\<rparr>"
        by simp
      with inv z nc k True show ?thesis
        by (clarsimp simp: inv_until_def tokens_def ticks_ctx_until_def ticks_ctx_def)
    next
      case nok: False
      with s' False have "s' = s\<lparr>running := running s - 1, calls := Suc (calls s),
          world := snd (do (stop s) (Suc (calls s)) (world s))\<rparr>"
        by simp
      with inv z nc k nok show ?thesis
        by (clarsimp simp: inv_until_def tokens_def ticks_ctx_until_def ticks_ctx_def)
    qed
  qed
next
  case Attempt_Resumes
  with step inv obtain b where "deferred_after_send p s = Some (b, s')"
    by (auto simp: BlockingGo_ctx_step_def inv_until_def)
  from resume_Some' [OF this hyp(1)] obtain r rs where
    r: "resuming s = r # rs" and s': "s' = s\<lparr>resuming := rs\<rparr>"
    by blast
  from inv r show ?thesis
    unfolding s'
    by (clarsimp simp: inv_until_def tokens_def ticks_ctx_until_def ticks_ctx_def)
qed

lemma inv_until_init:
  "0 < K \<Longrightarrow> inv_until K ok (stop (BlockingGo_init c w)) (BlockingGo_init c w)"
  by (simp add: inv_until_def tokens_def BlockingGo_init_def)

lemma chan_loop_step:
  assumes "loop s = LWait \<or> loop s = LReturned"
    and "BlockingGo_chan_step rt p do e s = Some s'"
  shows "loop s' = LWait \<or> loop s' = LReturned"
proof (cases e)
  case Attempt_Runs
  with assms show ?thesis
    by (auto simp: BlockingGo_chan_step_def attempt_runs_def deferred_until_send_def
        send_start_def close_start_def die_def Let_def
        split: if_splits prod.splits option.splits exit.splits)
next
  case Attempt_Resumes
  with assms show ?thesis
    by (auto simp: BlockingGo_chan_step_def deferred_after_send_def die_def
        split: if_splits list.splits)
next
  case Loop_Receive
  with assms show ?thesis
    by (auto simp: BlockingGo_chan_step_def receive_def launch_def split: if_splits list.splits)
qed (use assms in \<open>auto simp: BlockingGo_chan_step_def split: if_splits\<close>)

lemma chan_run_until:
  assumes hyp: "\<not> ReallyCrash p" "handlers_return rt p" "faults_before do K"
      "if ok then completes_at do K else nil_panics_at do K" "0 < K"
    and run: "run (BlockingGo_chan_step rt p do) es (BlockingGo_init c w) = Some s"
  shows "inv_until K ok (stop s) s \<and> (loop s = LWait \<or> loop s = LReturned)"
proof -
  let ?I = "\<lambda>s :: ('a, 'b) cstate. inv_until K ok (stop s) s \<and> (loop s = LWait \<or> loop s = LReturned)"
  have i: "?I (BlockingGo_init c w)"
    using hyp(5) by (simp add: inv_until_init) (simp add: BlockingGo_init_def)
  show ?thesis
  proof (rule run_invariant [where I = ?I and E = UNIV and step = "BlockingGo_chan_step rt p do",
        OF _ i _ run])
    fix e and s s' :: "('a, 'b) cstate"
    assume "?I s" and st: "BlockingGo_chan_step rt p do e s = Some s'"
    then have a: "inv_until K ok (stop s) s" and b: "loop s = LWait \<or> loop s = LReturned"
      by auto
    from chan_step_until [OF hyp(1-4) a st] chan_loop_step [OF b st] show "?I s'"
      by simp
  qed simp
qed


lemma ctx_run_until:
  assumes hyp: "\<not> ReallyCrash p" "handlers_return rt p" "\<forall>c. faults_before (do c) K"
      "\<forall>c. if ok then completes_at (do c) K else nil_panics_at (do c) K" "0 < K"
    and run: "run (BlockingGo_ctx_step rt p do) es (BlockingGo_init c w) = Some s"
  shows "inv_until K ok (stop s) s"
proof -
  let ?I = "\<lambda>s :: ('a, 'b) cstate. inv_until K ok (stop s) s"
  have i: "?I (BlockingGo_init c w)"
    using hyp(5) by (simp add: inv_until_init)
  show ?thesis
  proof (rule run_invariant [where I = ?I and E = UNIV and step = "BlockingGo_ctx_step rt p do",
        OF _ i _ run])
    fix e and s s' :: "('a, 'b) cstate"
    assume a: "?I s" and st: "BlockingGo_ctx_step rt p do e s = Some s'"
    from ctx_step_until [OF hyp(1-4) a st] show "?I s'"
      by simp
  qed simp
qed


text \<open>What the invariant says about the counters.\<close>

lemma inv_until_counts:
  assumes "inv_until K ok c s"
  shows "launched s \<le> K" and "calls s \<le> K" and "process s = Alive"
    and "calls s = K \<Longrightarrow> senders s = [] \<and> running s = 0 \<and> launched s = K \<and> loop s \<noteq> LCheck \<and> loop s \<noteq> LLaunch"
    and "closed s \<longleftrightarrow> ok \<and> calls s = K"
    and "loop s = LReturned \<Longrightarrow> c \<or> closed s"
proof -
  from assms show "launched s \<le> K" "calls s \<le> K" "process s = Alive"
    "closed s \<longleftrightarrow> ok \<and> calls s = K"
    by (auto simp: inv_until_def)
  from assms show "loop s = LReturned \<Longrightarrow> c \<or> closed s"
    by (auto simp: inv_until_def)
  assume k: "calls s = K"
  with assms have r: "running s = 0" by (auto simp: inv_until_def)
  with assms k have "tokens s = 0" by (auto simp: inv_until_def)
  with r assms k show "senders s = [] \<and> running s = 0 \<and> launched s = K \<and> loop s \<noteq> LCheck \<and> loop s \<noteq> LLaunch"
    by (auto simp: inv_until_def tokens_def split: if_splits)
qed



section \<open>Runs of \<open>BlockingGoTomb\<close>\<close>
























section \<open>Normal completion\<close>





lemmas tomb_simps =
  BlockingGoTomb_step_def BlockingGoTomb_init_def attempt_runs_tomb_def attempt_resumes_tomb_def
  in_tomb_def tomb_run_def tomb_Go_def kill_def tomb_init_def





section \<open>A panic with \<open>nil\<close>\<close>

lemma nil_call_step:
  assumes hyp: "handlers_return rt p" "faults_before do K" "nil_panics_at do K"
    and inv: "inv_until K False c s"
    and k: "Suc (calls s) = K"
    and st: "attempt_runs rt p do s = Some s'"
  shows "s' = s\<lparr>running := running s - 1, calls := K, world := snd (do K (world s))\<rparr>"
proof -
  from hyp(3) have h: "if False then completes_at do K else nil_panics_at do K" by simp
  from attempt_runs_running [OF st] have run: "running s > 0" .
  with inv have z: "senders s = []" "calls s < K"
    by (cases "senders s"; auto simp: inv_until_def tokens_def split: if_splits)+
  with inv have nc: "\<not> closed s"
    by (auto simp: inv_until_def)
  from attempt_runs_until [where ?do = "do", OF hyp(1,2) h st nc z] k show ?thesis
    by simp
qed

lemma chan_nil_panic:
  assumes hyp: "\<not> ReallyCrash p" "handlers_return rt p" "0 < K"
      "faults_before do K" "nil_panics_at do K"
    and run: "run (BlockingGo_chan_step rt p do) es (BlockingGo_init c w) = Some s"
  shows "launched s \<le> K \<and> \<not> closed s \<and> (calls s = K \<longrightarrow> senders s = [] \<and> running s = 0) \<and>
     (loop s = LReturned \<longrightarrow> stop s) \<and>
     (\<forall>s'. Suc (calls s) = K \<and> BlockingGo_chan_step rt p do Attempt_Runs s = Some s' \<longrightarrow>
        s' = s\<lparr>running := running s - 1, calls := K, world := snd (do K (world s))\<rparr>)"
proof -
  from hyp(5) have h4: "if False then completes_at do K else nil_panics_at do K" by simp
  from chan_run_until [OF hyp(1,2,4) h4 hyp(3) run]
  have inv: "inv_until K False (stop s) s"
    by simp
  from inv_until_counts [OF inv]
  have a: "launched s \<le> K \<and> \<not> closed s \<and> (calls s = K \<longrightarrow> senders s = [] \<and> running s = 0) \<and>
     (loop s = LReturned \<longrightarrow> stop s)"
    by auto
  have b: "s' = s\<lparr>running := running s - 1, calls := K, world := snd (do K (world s))\<rparr>"
    if "Suc (calls s) = K \<and> BlockingGo_chan_step rt p do Attempt_Runs s = Some s'" for s'
  proof -
    from that inv have "attempt_runs rt p do s = Some s'"
      by (simp add: BlockingGo_chan_step_def inv_until_def)
    from nil_call_step [where ?do = "do", OF hyp(2,4,5) inv _ this] that show ?thesis
      by simp
  qed
  from a b show ?thesis by blast
qed

lemma ctx_nil_panic:
  assumes hyp: "\<not> ReallyCrash p" "handlers_return rt p" "0 < K"
      "\<forall>c. faults_before (do c) K" "\<forall>c. nil_panics_at (do c) K"
    and run: "run (BlockingGo_ctx_step rt p do) es (BlockingGo_init c w) = Some s"
  shows "launched s \<le> K \<and> \<not> closed s \<and> (calls s = K \<longrightarrow> senders s = [] \<and> running s = 0) \<and>
     (loop s = LReturned \<longrightarrow> stop s) \<and>
     (\<forall>s'. Suc (calls s) = K \<and> BlockingGo_ctx_step rt p do Attempt_Runs s = Some s' \<longrightarrow>
        s' = s\<lparr>running := running s - 1, calls := K,
               world := snd (do (stop s) K (world s))\<rparr>)"
proof -
  from hyp(5) have h4: "\<forall>c. if False then completes_at (do c) K else nil_panics_at (do c) K"
    by simp
  from ctx_run_until [OF hyp(1,2,4) h4 hyp(3) run]
  have inv: "inv_until K False (stop s) s" .
  from inv_until_counts [OF inv]
  have a: "launched s \<le> K \<and> \<not> closed s \<and> (calls s = K \<longrightarrow> senders s = [] \<and> running s = 0) \<and>
     (loop s = LReturned \<longrightarrow> stop s)"
    by auto
  have b: "s' = s\<lparr>running := running s - 1, calls := K,
      world := snd (do (stop s) K (world s))\<rparr>"
    if "Suc (calls s) = K \<and> BlockingGo_ctx_step rt p do Attempt_Runs s = Some s'" for s'
  proof -
    from that inv have st: "attempt_runs rt p (do (stop s)) s = Some s'"
      by (simp add: BlockingGo_ctx_step_def inv_until_def)
    from hyp(4,5) have "faults_before (do (stop s)) K" "nil_panics_at (do (stop s)) K"
      by simp_all
    from nil_call_step [where ?do = "do (stop s)", OF hyp(2) this inv _ st] that show ?thesis
      by simp
  qed
  from a b show ?thesis by blast
qed

text \<open>
  Claim C9. When the deferring function panicked with \<open>nil\<close>, \<open>recover\<close> gives \<open>nil\<close> and
  \<open>HandleCrash\<close> calls no handler, registered or additional: the world is as it was. In
  the loops (with a stop channel and with a context; \<open>ReallyCrash\<close> off, the registered
  handlers return, the calls before the \<open>K\<close>-th fault): when the \<open>K\<close>-th call panics with
  \<open>nil\<close>, the step of that call only counts the call and leaves the world as the call
  made it, with no sender blocked in \<open>start\<close>; in every run no more than \<open>K\<close> attempts
  are launched, the channel \<open>start\<close> is never closed, no token is left once the \<open>K\<close>-th
  call has ended, and the loop returns only when the stop channel is closed (the context
  cancelled).
\<close>

theorem nil_panic_is_not_contained:
  assumes "\<not> ReallyCrash p" and "handlers_return rt p" and "0 < K"
  shows
    "HandleCrash rt p additionalHandlers (Panic None) w0 = (Normal, w0) \<and>
     (faults_before do K \<and> nil_panics_at do K \<longrightarrow>
       (\<forall>c es s. run (BlockingGo_chan_step rt p do) es (BlockingGo_init c w) = Some s \<longrightarrow>
          launched s \<le> K \<and> \<not> closed s \<and>
          (calls s = K \<longrightarrow> senders s = [] \<and> running s = 0) \<and>
          (loop s = LReturned \<longrightarrow> stop s) \<and>
          (\<forall>s'. Suc (calls s) = K \<and>
                BlockingGo_chan_step rt p do Attempt_Runs s = Some s' \<longrightarrow>
             s' = s\<lparr>running := running s - 1, calls := K,
                    world := snd (do K (world s))\<rparr>))) \<and>
     ((\<forall>c. faults_before (do' c) K) \<and> (\<forall>c. nil_panics_at (do' c) K) \<longrightarrow>
       (\<forall>c es s. run (BlockingGo_ctx_step rt p do') es (BlockingGo_init c w) = Some s \<longrightarrow>
          launched s \<le> K \<and> \<not> closed s \<and>
          (calls s = K \<longrightarrow> senders s = [] \<and> running s = 0) \<and>
          (loop s = LReturned \<longrightarrow> stop s) \<and>
          (\<forall>s'. Suc (calls s) = K \<and>
                BlockingGo_ctx_step rt p do' Attempt_Runs s = Some s' \<longrightarrow>
             s' = s\<lparr>running := running s - 1, calls := K,
                    world := snd (do' (stop s) K (world s))\<rparr>)))"
proof (intro conjI)
  show "HandleCrash rt p additionalHandlers (Panic None) w0 = (Normal, w0)"
    by (simp add: HandleCrash_def)
  show "faults_before do K \<and> nil_panics_at do K \<longrightarrow>
       (\<forall>c es s. run (BlockingGo_chan_step rt p do) es (BlockingGo_init c w) = Some s \<longrightarrow>
          launched s \<le> K \<and> \<not> closed s \<and>
          (calls s = K \<longrightarrow> senders s = [] \<and> running s = 0) \<and>
          (loop s = LReturned \<longrightarrow> stop s) \<and>
          (\<forall>s'. Suc (calls s) = K \<and>
                BlockingGo_chan_step rt p do Attempt_Runs s = Some s' \<longrightarrow>
             s' = s\<lparr>running := running s - 1, calls := K,
                    world := snd (do K (world s))\<rparr>))"
    using chan_nil_panic [OF assms, where ?do = "do" and w = w]
    by (intro impI allI) (erule conjE, blast)
  show "(\<forall>c. faults_before (do' c) K) \<and> (\<forall>c. nil_panics_at (do' c) K) \<longrightarrow>
       (\<forall>c es s. run (BlockingGo_ctx_step rt p do') es (BlockingGo_init c w) = Some s \<longrightarrow>
          launched s \<le> K \<and> \<not> closed s \<and>
          (calls s = K \<longrightarrow> senders s = [] \<and> running s = 0) \<and>
          (loop s = LReturned \<longrightarrow> stop s) \<and>
          (\<forall>s'. Suc (calls s) = K \<and>
                BlockingGo_ctx_step rt p do' Attempt_Runs s = Some s' \<longrightarrow>
             s' = s\<lparr>running := running s - 1, calls := K,
                    world := snd (do' (stop s) K (world s))\<rparr>))"
    using ctx_nil_panic [OF assms, where ?do = "do'" and w = w]
    by (intro impI allI) (erule conjE, blast)
qed

lemma boom_then_nil_faults: "faults_before boom_then_nil 2"
  by (simp add: faults_before_def faults_at_def boom_then_nil_def)

lemma boom_then_nil_panics: "nil_panics_at boom_then_nil 2"
  by (simp add: nil_panics_at_def boom_then_nil_def)

lemma handlers_return_pkg_count: "handlers_return rt0 pkg_count"
  by (simp add: handlers_return_def pkg_count_def returns_def)

text \<open>
  The theorem at a unit of work that panics with a string at its first call and with
  \<open>nil\<close> at its second, with a registered handler that adds ten to the world: the second
  call adds one only, and afterwards no step but cancellation is possible.
\<close>

theorem nil_panic_is_not_contained_witness:
  "\<not> ReallyCrash pkg_count \<and> handlers_return rt0 pkg_count \<and>
   faults_before boom_then_nil 2 \<and> nil_panics_at boom_then_nil 2 \<and>
   run (BlockingGo_chan_step rt0 pkg_count boom_then_nil)
     [Loop_Receive, Attempt_Runs, Loop_Receive, Attempt_Resumes]
     (BlockingGo_init False 0) =
   Some \<lparr>loop = LWait, closed = False, senders = [], running = 1, resuming = [],
     launched = 2, calls = 1, world = 11, process = Alive, stop = False\<rparr> \<and>
   BlockingGo_chan_step rt0 pkg_count boom_then_nil Attempt_Runs
     \<lparr>loop = LWait, closed = False, senders = [], running = 1, resuming = [],
       launched = 2, calls = 1, world = 11, process = Alive, stop = False\<rparr> =
   Some \<lparr>loop = LWait, closed = False, senders = [], running = 0, resuming = [],
     launched = 2, calls = 2, world = 12, process = Alive, stop = False\<rparr> \<and>
   \<not> can_step (BlockingGo_chan_step rt0 pkg_count boom_then_nil)
     \<lparr>loop = LWait, closed = False, senders = [], running = 0, resuming = [],
       launched = 2, calls = 2, world = 12, process = Alive, stop = False\<rparr>"
  using nil_panic_is_not_contained [where p = pkg_count and rt = rt0 and K = 2
      and ?do = boom_then_nil and ?do' = "\<lambda>_. boom_then_nil" and w = 0]
  by (simp add: handlers_return_pkg_count boom_then_nil_faults boom_then_nil_panics)
    (simp add: step_simps pkg_count_def boom_then_nil_def can_step_def)

section \<open>What the tomb is given\<close>

lemma kill_None_reason:
  "results (snd (kill None t)) = results t \<and>
   (reason (snd (kill None t)) = reason t \<or> reason (snd (kill None t)) = None)"
  by (auto simp: kill_def split: if_splits)

lemma tomb_run_None_reason:
  "results (snd (tomb_run None t)) = results t @ [None] \<and>
   (reason (snd (tomb_run None t)) = reason t \<or> reason (snd (tomb_run None t)) = None)"
proof -
  let ?t1 = "t\<lparr>alive := alive t - 1, results := results t @ [None]\<rparr>"
  have "snd (tomb_run None t) = ?t1 \<or> snd (tomb_run None t) = snd (kill None ?t1) \<or>
      snd (tomb_run None t) = (snd (kill None ?t1))\<lparr>dead := True\<rparr>"
    by (cases "kill None ?t1"; cases "fst (kill None ?t1)") (auto simp: tomb_run_def Let_def)
  with kill_None_reason [of ?t1] show ?thesis
    by auto
qed

lemma tomb_in_tomb: "tomb (in_tomb f s) = snd (f (tomb s))"
  by (auto simp: in_tomb_def die_def split: prod.splits option.splits)

lemma in_tomb_run_None:
  "results (tomb (in_tomb (tomb_run None) s)) = results (tomb s) @ [None] \<and>
   (reason (tomb (in_tomb (tomb_run None) s)) = reason (tomb s) \<or>
    reason (tomb (in_tomb (tomb_run None) s)) = None)"
  using tomb_run_None_reason [of "tomb s"]
  by (simp add: tomb_in_tomb)

lemma in_tomb_kill_None:
  "results (tomb (in_tomb (kill None) s)) = results (tomb s) \<and>
   (reason (tomb (in_tomb (kill None) s)) = reason (tomb s) \<or>
    reason (tomb (in_tomb (kill None) s)) = None)"
  using kill_None_reason [of "tomb s"]
  by (simp add: tomb_in_tomb)

lemma tomb_die: "tomb (die q s) = tomb s"
  by (simp add: die_def)

lemma tomb_send_start: "tomb (send_start r s) = tomb s"
  by (simp add: send_start_def die_def)

lemma tomb_deferred_until_send: "tomb (snd (deferred_until_send rt p ex s)) = tomb s"
  by (auto simp: deferred_until_send_def tomb_die tomb_send_start
      split: option.splits prod.splits exit.splits)

lemma attempt_runs_tomb_panics:
  assumes "fst (do (Suc (calls s)) (world s)) = Panics v"
    and "attempt_runs_tomb rt p do s = Some s'"
  shows "tomb s' = tomb s \<or>
     results (tomb s') = results (tomb s) @ [None] \<and>
     (reason (tomb s') = reason (tomb s) \<or> reason (tomb s') = None)"
proof -
  obtain w where d: "do (Suc (calls s)) (world s) = (Panics v, w)"
    using assms(1) by (cases "do (Suc (calls s)) (world s)") auto
  let ?s1 = "s\<lparr>running := running s - 1, calls := Suc (calls s), world := w\<rparr>"
  obtain ret s3 where u: "deferred_until_send rt p (Panic v) ?s1 = (ret, s3)"
    by (cases "deferred_until_send rt p (Panic v) ?s1")
  from tomb_deferred_until_send [of rt p "Panic v" ?s1] u have t3: "tomb s3 = tomb s"
    by simp
  from assms(2) d u have "s' = (if ret then in_tomb (tomb_run None) s3 else s3)"
    by (auto simp: attempt_runs_tomb_def split: if_splits)
  with t3 in_tomb_run_None [of s3] show ?thesis
    by (cases ret) auto
qed

lemma attempt_runs_tomb_faults_tomb:
  assumes "fst (do (Suc (calls s)) (world s)) = Panics (Some r)"
    and "attempt_runs_tomb rt p do s = Some s'"
  shows "tomb s' = tomb s"
proof -
  obtain w where d: "do (Suc (calls s)) (world s) = (Panics (Some r), w)"
    using assms(1) by (cases "do (Suc (calls s)) (world s)") auto
  let ?s1 = "s\<lparr>running := running s - 1, calls := Suc (calls s), world := w\<rparr>"
  obtain ret s3 where u: "deferred_until_send rt p (Panic (Some r)) ?s1 = (ret, s3)"
    by (cases "deferred_until_send rt p (Panic (Some r)) ?s1")
  then have nr: "\<not> ret"
    by (auto simp: deferred_until_send_def split: prod.splits exit.splits)
  from tomb_deferred_until_send [of rt p "Panic (Some r)" ?s1] u have t3: "tomb s3 = tomb s"
    by simp
  from assms(2) d u nr have "s' = s3"
    by (auto simp: attempt_runs_tomb_def split: if_splits)
  with t3 show ?thesis by simp
qed

lemma attempt_resumes_tomb_reason:
  assumes "attempt_resumes_tomb p s = Some s'"
  shows "tomb s' = tomb s \<or>
     results (tomb s') = results (tomb s) @ [None] \<and>
     (reason (tomb s') = reason (tomb s) \<or> reason (tomb s') = None)"
proof -
  from assms obtain ret s1 where d: "deferred_after_send p s = Some (ret, s1)"
    and s': "s' = (if ret then in_tomb (tomb_run None) s1 else s1)"
    by (auto simp: attempt_resumes_tomb_def split: option.splits)
  from d have "tomb s1 = tomb s"
    by (auto simp: deferred_after_send_def tomb_die split: list.splits if_splits)
  with s' in_tomb_run_None [of s1] show ?thesis
    by (cases ret) auto
qed

lemma attempt_resumes_tomb_contained:
  assumes "\<not> ReallyCrash p" "resuming s = r # rs"
  shows "attempt_resumes_tomb p s = Some (in_tomb (tomb_run None) (s\<lparr>resuming := rs\<rparr>))"
  using assms by (simp add: attempt_resumes_tomb_def deferred_after_send_def)

text \<open>The tomb is given \<open>nil\<close> only as long as no call returns.\<close>

lemma tomb_step_never_returns:
  assumes nr: "\<forall>n w. \<exists>v. fst (do n w) = Panics v"
    and inv: "list_all (\<lambda>x. x = None) (results (tomb s))"
      "reason (tomb s) = Some ErrStillAlive \<or> reason (tomb s) = None"
    and step: "BlockingGoTomb_step rt p do None e s = Some s'"
  shows "list_all (\<lambda>x. x = None) (results (tomb s')) \<and>
     (reason (tomb s') = Some ErrStillAlive \<or> reason (tomb s') = None)"
proof -
  have "tomb s' = tomb s \<or> alive (tomb s') \<noteq> alive (tomb s) \<and> results (tomb s') = results (tomb s) \<and> reason (tomb s') = reason (tomb s) \<or>
     (results (tomb s') = results (tomb s) \<or> results (tomb s') = results (tomb s) @ [None]) \<and>
     (reason (tomb s') = reason (tomb s) \<or> reason (tomb s') = None)"
  proof (cases e)
    case Cancel
    with step in_tomb_kill_None [of s] show ?thesis
      by (auto simp: BlockingGoTomb_step_def split: if_splits)
  next
    case Loop_Receive
    with step show ?thesis
      by (auto simp: BlockingGoTomb_step_def receive_def split: if_splits list.splits)
  next
    case Loop_Launch
    with step show ?thesis
      by (auto simp: BlockingGoTomb_step_def tomb_Go_def launch_def tomb_die split: if_splits)
  next
    case Attempt_Runs
    from nr obtain v where "fst (do (Suc (calls s)) (world s)) = Panics v" by blast
    from attempt_runs_tomb_panics [where ?do = "do" and s = s and s' = s' and rt = rt and p = p, OF this]
      step Attempt_Runs show ?thesis
      by (auto simp: BlockingGoTomb_step_def split: if_splits)
  next
    case Attempt_Resumes
    with attempt_resumes_tomb_reason [of p s s'] step show ?thesis
      by (auto simp: BlockingGoTomb_step_def split: if_splits)
  qed (use step in \<open>auto simp: BlockingGoTomb_step_def split: if_splits\<close>)
  with inv show ?thesis by auto
qed

text \<open>
  Claim C10. In \<open>BlockingGoTomb\<close>, whatever the state: with \<open>ReallyCrash\<close> off, when an
  attempt whose fault was contained goes on after its send, the function given to \<open>ts.Go\<close>
  returns \<open>nil\<close> to the tomb, and the tomb's reason stays what it was or becomes \<open>nil\<close>;
  the step in which a call faults leaves the tomb as it was. So in every run of a unit of
  work none of whose calls returns, with a tomb killed by \<open>nil\<close> only, the tomb has been
  given \<open>nil\<close> only and its reason is \<open>ErrStillAlive\<close> or \<open>nil\<close>.
\<close>

theorem contained_fault_returns_nil_to_tomb:
  "(\<not> ReallyCrash p \<and> process s = Alive \<and> resuming s = r # rs \<longrightarrow>
      (\<exists>s'. BlockingGoTomb_step rt p do why Attempt_Resumes s = Some s' \<and>
         results (tomb s') = results (tomb s) @ [None] \<and>
         (reason (tomb s') = reason (tomb s) \<or> reason (tomb s') = None))) \<and>
   (process s = Alive \<and> fst (do (Suc (calls s)) (world s)) = Panics (Some r) \<longrightarrow>
      (\<forall>s'. BlockingGoTomb_step rt p do why Attempt_Runs s = Some s' \<longrightarrow> tomb s' = tomb s)) \<and>
   ((\<forall>n w. \<exists>v. fst (do n w) = Panics v) \<longrightarrow>
      (\<forall>es s'. run (BlockingGoTomb_step rt p do None) es
           (BlockingGoTomb_init (tomb_init\<lparr>alive := a0\<rparr>) w) = Some s' \<longrightarrow>
         list_all (\<lambda>x. x = None) (results (tomb s')) \<and>
         (reason (tomb s') = Some ErrStillAlive \<or> reason (tomb s') = None)))"
proof (intro conjI impI allI)
  assume h: "\<not> ReallyCrash p \<and> process s = Alive \<and> resuming s = r # rs"
  then have "BlockingGoTomb_step rt p do why Attempt_Resumes s =
      Some (in_tomb (tomb_run None) (s\<lparr>resuming := rs\<rparr>))"
    by (simp add: BlockingGoTomb_step_def attempt_resumes_tomb_contained)
  with in_tomb_run_None [of "s\<lparr>resuming := rs\<rparr>"]
  show "\<exists>s'. BlockingGoTomb_step rt p do why Attempt_Resumes s = Some s' \<and>
         results (tomb s') = results (tomb s) @ [None] \<and>
         (reason (tomb s') = reason (tomb s) \<or> reason (tomb s') = None)"
    by simp
next
  fix s'
  assume h: "process s = Alive \<and> fst (do (Suc (calls s)) (world s)) = Panics (Some r)"
    and st: "BlockingGoTomb_step rt p do why Attempt_Runs s = Some s'"
  from h st have "attempt_runs_tomb rt p do s = Some s'"
    by (simp add: BlockingGoTomb_step_def)
  with attempt_runs_tomb_faults_tomb [of "do" s r rt p s'] h show "tomb s' = tomb s"
    by simp
next
  fix es s'
  assume nr: "\<forall>n w. \<exists>v. fst (do n w) = Panics v"
    and run: "run (BlockingGoTomb_step rt p do None) es
        (BlockingGoTomb_init (tomb_init\<lparr>alive := a0\<rparr>) w) = Some s'"
  let ?I = "\<lambda>s :: ('a, 'b, 'c) tstate. list_all (\<lambda>x. x = None) (results (tomb s)) \<and>
      (reason (tomb s) = Some ErrStillAlive \<or> reason (tomb s) = None)"
  have i: "?I (BlockingGoTomb_init (tomb_init\<lparr>alive := a0\<rparr>) w)"
    by (simp add: BlockingGoTomb_init_def tomb_init_def)
  have "?I s'"
  proof (rule run_invariant [where I = ?I and E = UNIV
        and step = "BlockingGoTomb_step rt p do None", OF _ i _ run])
    fix e and s s' :: "('a, 'b, 'c) tstate"
    assume "?I s" and st: "BlockingGoTomb_step rt p do None e s = Some s'"
    then have a: "list_all (\<lambda>x. x = None) (results (tomb s))"
      "reason (tomb s) = Some ErrStillAlive \<or> reason (tomb s) = None"
      by auto
    from tomb_step_never_returns [OF nr a st] show "?I s'" .
  qed simp
  then show "list_all (\<lambda>x. x = None) (results (tomb s'))"
    "reason (tomb s') = Some ErrStillAlive \<or> reason (tomb s') = None"
    by auto
qed

text \<open>
  The theorem at a tomb that tracks nothing else: when the first attempt, which faulted,
  returns, the tomb takes \<open>nil\<close> as its reason and is dead.
\<close>

theorem contained_fault_returns_nil_to_tomb_witness:
  "\<not> ReallyCrash pkg0 \<and>
   run (BlockingGoTomb_step rt0 pkg0 always_boom_tomb None)
     [Loop_Receive, Loop_Check, Loop_Launch, Attempt_Runs, Loop_Receive]
     (BlockingGoTomb_init tomb_init 0) =
   Some \<lparr>loop = LCheck, closed = False, senders = [], running = 0,
     resuming = [Str ''panicked''], launched = 1, calls = 1, world = 1, process = Alive,
     tomb = \<lparr>alive = 1, dying = False, dead = False, reason = Some ErrStillAlive,
       results = []\<rparr>\<rparr> \<and>
   BlockingGoTomb_step rt0 pkg0 always_boom_tomb None Attempt_Resumes
     \<lparr>loop = LCheck, closed = False, senders = [], running = 0,
       resuming = [Str ''panicked''], launched = 1, calls = 1, world = 1, process = Alive,
       tomb = \<lparr>alive = 1, dying = False, dead = False, reason = Some ErrStillAlive,
         results = []\<rparr>\<rparr> =
   Some \<lparr>loop = LCheck, closed = False, senders = [], running = 0,
     resuming = [], launched = 1, calls = 1, world = 1, process = Alive,
     tomb = \<lparr>alive = 0, dying = True, dead = True, reason = None, results = [None]\<rparr>\<rparr>"
  using contained_fault_returns_nil_to_tomb [where p = pkg0 and rt = rt0
      and ?do = always_boom_tomb and why = None and r = "Str ''panicked''" and rs = "[]"
      and s = "\<lparr>loop = LCheck, closed = False, senders = [], running = 0,
       resuming = [Str ''panicked''], launched = 1, calls = 1, world = 1, process = Alive,
       tomb = \<lparr>alive = 1, dying = False, dead = False, reason = Some ErrStillAlive,
         results = []\<rparr>\<rparr>"]
  by (simp add: step_simps tomb_simps pkg0_def always_boom_tomb_def)

section \<open>Cancellation\<close>











section \<open>The calls that do not block\<close>

lemma run_detached:
  "run (detached_step step) es (go_stmt s0) = map_option go_stmt (run step es s0)"
proof (induction es arbitrary: s0)
  case Nil
  show ?case by simp
next
  case (Cons e es)
  show ?case
  proof (cases "step e s0")
    case None
    then show ?thesis by (simp add: detached_step_def go_stmt_def)
  next
    case (Some s1)
    then have "detached_step step e (go_stmt s0) = Some (go_stmt s1)"
      by (simp add: detached_step_def go_stmt_def)
    with Some Cons.IH [of s1] show ?thesis by simp
  qed
qed

text \<open>
  Claim C8. \<open>Go\<close> and \<open>GoTomb\<close> give the call back to the caller at once, where the
  blocking functions have not returned when they enter their loop; and under every
  schedule the supervision started by \<open>Go\<close> (by \<open>GoTomb\<close>) goes through the states that
  \<open>BlockingGo\<close> (\<open>BlockingGoTomb\<close>) goes through, and stops where it stops.
\<close>

theorem Go_is_BlockingGo_detached:
  "run (detached_step (BlockingGo_chan_step rt p do)) es (Go_init c w) =
     map_option go_stmt (run (BlockingGo_chan_step rt p do) es (BlockingGo_init c w)) \<and>
   run (detached_step (BlockingGo_ctx_step rt p do')) es (Go_init c w) =
     map_option go_stmt (run (BlockingGo_ctx_step rt p do') es (BlockingGo_init c w)) \<and>
   run (detached_step (BlockingGoTomb_step rt p dot why)) es (GoTomb_init t w) =
     map_option go_stmt (run (BlockingGoTomb_step rt p dot why) es (BlockingGoTomb_init t w)) \<and>
   caller_returned (Go_init c w) \<and> caller_returned (GoTomb_init t w) \<and>
   \<not> blocking_returned (BlockingGo_init c w) \<and> \<not> blocking_returned (BlockingGoTomb_init t w)"
  by (simp add: Go_init_def GoTomb_init_def run_detached)
    (simp add: go_stmt_def blocking_returned_def BlockingGo_init_def BlockingGoTomb_init_def)

end
